theory Spec2Isabelle
  imports Complex_Main "HOL-Library.Multiset" "HOL-Library.AList"
begin

section \<open>Card model (game\_logic.py)\<close>

text \<open>
  The enums \<open>Suit\<close> and \<open>Rank\<close>, in declaration order (the order in which
  \<open>create_deck\<close> iterates over them), and the dataclass \<open>Card\<close>, whose equality
  is equality of the pair (suit, rank).
\<close>

datatype suit = HEARTS | DIAMONDS | CLUBS | SPADES

datatype rank = NINE | TEN | JACK | QUEEN | KING | ACE

fun rank_value :: "rank \<Rightarrow> int" where
  "rank_value NINE = 9"
| "rank_value TEN = 10"
| "rank_value JACK = 11"
| "rank_value QUEEN = 12"
| "rank_value KING = 13"
| "rank_value ACE = 14"

datatype card = Card (suit: suit) (rank: rank)

datatype game_phase =
  WAITING_FOR_PLAYERS | DEALING | TRUMP_SELECTION | PLAYING | ROUND_COMPLETE | GAME_COMPLETE

text \<open>Exceptions the engine can raise: a missing dict key, a list index out of range,
  \<open>list.index\<close> on an absent element, an attribute of \<open>None\<close>.\<close>

datatype error = KeyError | IndexError | ValueError | AttributeError

record player =
  player_id :: string
  player_name :: string
  hand :: "card list"
  position :: nat
  is_connected :: bool
  is_ai :: bool

record trick =
  cards :: "(string \<times> card) list"
  leader :: string
  winner :: string

definition new_trick :: trick where
  "new_trick = \<lparr>cards = [], leader = [], winner = []\<rparr>"

text \<open>
  The attributes of \<open>EuchreGame\<close>. The dict \<open>players\<close> keeps its keys in
  insertion order: it is an association list with distinct keys, read with
  \<open>map_of\<close> and written with \<open>AList.update\<close> (which replaces the value of a key
  that is present and appends a new key at the end, as a Python dict does).
  \<open>team_scores\<close> is the dict with the two keys 0 and 1, a function on the team number.
\<close>

record game =
  room_code :: string
  players :: "(string \<times> player) list"
  player_order :: "string list"
  phase :: game_phase
  deck :: "card list"
  trump_suit :: "suit option"
  trump_card :: "card option"
  dealer_index :: nat
  current_player_index :: nat
  current_trick :: trick
  completed_tricks :: "trick list"
  trump_maker :: "string option"
  going_alone :: "string option"
  team_scores :: "nat \<Rightarrow> int"
  round_points :: int
  trump_selection_round :: nat
  trump_selection_player_index :: nat

definition new_game :: "string \<Rightarrow> game" where
  "new_game rc =
     \<lparr>room_code = rc, players = [], player_order = [],
      phase = WAITING_FOR_PLAYERS, deck = [], trump_suit = None, trump_card = None,
      dealer_index = 0, current_player_index = 0, current_trick = new_trick,
      completed_tricks = [], trump_maker = None, going_alone = None,
      team_scores = (\<lambda>_. 0), round_points = 0, trump_selection_round = 1,
      trump_selection_player_index = 0\<rparr>"

subsection \<open>Trump-aware comparison primitives\<close>

text \<open>The colour test that \<open>get_card_value\<close>, \<open>is_trump\<close> and \<open>get_effective_suit\<close>
  all spell out: both suits red, or both black.\<close>

definition same_color :: "suit \<Rightarrow> suit \<Rightarrow> bool" where
  "same_color t s \<longleftrightarrow>
     (t \<in> {HEARTS, DIAMONDS} \<and> s \<in> {HEARTS, DIAMONDS}) \<or>
     (t \<in> {CLUBS, SPADES} \<and> s \<in> {CLUBS, SPADES})"

definition get_card_value :: "card \<Rightarrow> suit \<Rightarrow> suit \<Rightarrow> int" where
  "get_card_value c trump leading =
     (if rank c = JACK \<and> suit c = trump then 100
      else if rank c = JACK \<and> same_color trump (suit c) then 99
      else if suit c = trump then 50 + rank_value (rank c)
      else if suit c = leading then rank_value (rank c)
      else 0)"

text \<open>Members of the enum \<open>Suit\<close> are all truthy, so \<open>if not self.trump_suit\<close> tests
  for \<open>None\<close> only.\<close>

definition is_trump :: "game \<Rightarrow> card \<Rightarrow> bool" where
  "is_trump s c =
     (case trump_suit s of
        None \<Rightarrow> False
      | Some t \<Rightarrow>
          if suit c = t then True
          else if rank c = JACK \<and> same_color t (suit c) then True
          else False)"

definition get_effective_suit :: "game \<Rightarrow> card \<Rightarrow> suit" where
  "get_effective_suit s c =
     (case trump_suit s of
        None \<Rightarrow> suit c
      | Some t \<Rightarrow> if rank c = JACK \<and> same_color t (suit c) then t else suit c)"

subsection \<open>Deck and deal\<close>

definition create_deck :: "card list" where
  "create_deck =
     concat (map (\<lambda>s. map (\<lambda>r. Card s r) [NINE, TEN, JACK, QUEEN, KING, ACE])
       [HEARTS, DIAMONDS, CLUBS, SPADES])"

text \<open>
  The two nested loops of \<open>deal_cards\<close>, run over five copies of \<open>player_order\<close>:
  each step appends \<open>deck[card_index]\<close> to one hand and advances \<open>card_index\<close>.
\<close>

fun deal_loop ::
  "string list \<Rightarrow> card list \<Rightarrow> nat \<Rightarrow> (string \<times> player) list \<Rightarrow>
     error + (nat \<times> (string \<times> player) list)"
where
  "deal_loop [] dk i ps = Inr (i, ps)"
| "deal_loop (pid # rest) dk i ps =
     (case map_of ps pid of
        None \<Rightarrow> Inl KeyError
      | Some p \<Rightarrow>
          if i < length dk
          then deal_loop rest dk (Suc i) (AList.update pid (p\<lparr>hand := hand p @ [dk ! i]\<rparr>) ps)
          else Inl IndexError)"

text \<open>
  \<open>random.shuffle\<close> is the parameter \<open>sh\<close>: the permutation the random source applies
  to the fresh deck.
\<close>

definition deal_cards :: "(card list \<Rightarrow> card list) \<Rightarrow> game \<Rightarrow> error + game" where
  "deal_cards sh s =
     (let dk = sh create_deck;
          ps0 = map (\<lambda>(k, p). (k, p\<lparr>hand := []\<rparr>)) (players s)
      in case deal_loop (concat (replicate 5 (player_order s))) dk 0 ps0 of
           Inl e \<Rightarrow> Inl e
         | Inr (i, ps) \<Rightarrow>
             if i < length dk
             then Inr (s\<lparr>deck := dk, players := ps, trump_card := Some (dk ! i),
                        phase := TRUMP_SELECTION, trump_selection_round := 1,
                        trump_selection_player_index := (dealer_index s + 1) mod 4\<rparr>)
             else Inl IndexError)"

definition start_game :: "(card list \<Rightarrow> card list) \<Rightarrow> game \<Rightarrow> error + (bool \<times> game)" where
  "start_game sh s =
     (if length (players s) \<noteq> 4 then Inr (False, s)
      else case deal_cards sh (s\<lparr>phase := DEALING\<rparr>) of
             Inl e \<Rightarrow> Inl e
           | Inr s' \<Rightarrow> Inr (True, s'))"

definition add_player ::
  "(card list \<Rightarrow> card list) \<Rightarrow> string \<Rightarrow> string \<Rightarrow> bool \<Rightarrow> game \<Rightarrow> error + (bool \<times> game)"
where
  "add_player sh pid nm ai s =
     (if length (players s) \<ge> 4 then Inr (False, s)
      else
        let pos = length (players s);
            s1 = s\<lparr>players := AList.update pid
                     \<lparr>player_id = pid, player_name = nm, hand = [], position = pos,
                      is_connected = True, is_ai = ai\<rparr> (players s),
                   player_order := player_order s @ [pid]\<rparr>
        in if length (players s1) = 4
           then (case start_game sh s1 of Inl e \<Rightarrow> Inl e | Inr (_, s2) \<Rightarrow> Inr (True, s2))
           else Inr (True, s1))"

subsection \<open>Legal play\<close>

definition can_play_card :: "game \<Rightarrow> string \<Rightarrow> card \<Rightarrow> bool" where
  "can_play_card s pid c =
     (case map_of (players s) pid of
        None \<Rightarrow> False
      | Some p \<Rightarrow>
          if c \<notin> set (hand p) then False
          else (case cards (current_trick s) of
                  [] \<Rightarrow> True
                | (_, leading_card) # _ \<Rightarrow>
                    let leading_suit = get_effective_suit s leading_card;
                        has_leading_suit =
                          list_ex (\<lambda>c'. get_effective_suit s c' = leading_suit) (hand p)
                    in if has_leading_suit then get_effective_suit s c = leading_suit
                       else True))"

subsection \<open>Round scoring\<close>

text \<open>The loop of \<open>complete_round\<close> that counts the tricks of each team.\<close>

fun count_tricks ::
  "(string \<times> player) list \<Rightarrow> trick list \<Rightarrow> (nat \<Rightarrow> nat) \<Rightarrow> error + (nat \<Rightarrow> nat)"
where
  "count_tricks ps [] tt = Inr tt"
| "count_tricks ps (t # ts) tt =
     (case map_of ps (winner t) of
        None \<Rightarrow> Inl KeyError
      | Some p \<Rightarrow> let team = position p mod 2 in count_tricks ps ts (tt(team := tt team + 1)))"

text \<open>\<open>if self.going_alone\<close>: the attribute is a player id or \<open>None\<close>, and a string is
  truthy when it is not empty.\<close>

definition truthy :: "string option \<Rightarrow> bool" where
  "truthy x = (case x of None \<Rightarrow> False | Some v \<Rightarrow> v \<noteq> [])"

definition start_next_round :: "(card list \<Rightarrow> card list) \<Rightarrow> game \<Rightarrow> error + game" where
  "start_next_round sh s =
     deal_cards sh
       (s\<lparr>completed_tricks := [], trump_suit := None, trump_card := None,
          trump_maker := None, going_alone := None,
          dealer_index := (dealer_index s + 1) mod 4\<rparr>)"

definition round_points_of :: "bool \<Rightarrow> bool \<Rightarrow> nat \<Rightarrow> int" where
  "round_points_of made alone tricks_won =
     (if made then (if alone then (if tricks_won = 5 then 4 else 1)
                    else (if tricks_won = 5 then 2 else 1))
      else 2)"

definition complete_round :: "(card list \<Rightarrow> card list) \<Rightarrow> game \<Rightarrow> error + game" where
  "complete_round sh s =
     (case count_tricks (players s) (completed_tricks s) (\<lambda>_. 0) of
        Inl e \<Rightarrow> Inl e
      | Inr team_tricks \<Rightarrow>
          (case trump_maker s of
             None \<Rightarrow> Inl KeyError
           | Some tm \<Rightarrow>
               (case map_of (players s) tm of
                  None \<Rightarrow> Inl KeyError
                | Some mp \<Rightarrow>
                    let trump_making_team = position mp mod 2;
                        winning_team = (if team_tricks 0 > team_tricks 1 then 0 else 1);
                        tricks_won = team_tricks winning_team;
                        points = round_points_of (winning_team = trump_making_team)
                                   (truthy (going_alone s)) tricks_won;
                        s1 = s\<lparr>team_scores :=
                                 (team_scores s)(winning_team := team_scores s winning_team + points)\<rparr>
                    in if max (team_scores s1 0) (team_scores s1 1) \<ge> 10
                       then Inr (s1\<lparr>phase := GAME_COMPLETE\<rparr>)
                       else start_next_round sh s1)))"

subsection \<open>Trick resolution\<close>

text \<open>The loop of \<open>complete_trick\<close> over \<open>enumerate(cards[1:], 1)\<close>, carrying
  \<open>winner_idx\<close> and \<open>highest_value\<close>.\<close>

fun winner_loop :: "suit \<Rightarrow> suit \<Rightarrow> (nat \<times> string \<times> card) list \<Rightarrow> nat \<Rightarrow> int \<Rightarrow> nat" where
  "winner_loop t l [] w h = w"
| "winner_loop t l ((i, _, c) # rest) w h =
     (let v = get_card_value c t l
      in if v > h then winner_loop t l rest i v else winner_loop t l rest w h)"

definition trick_winner_idx :: "game \<Rightarrow> suit \<Rightarrow> (string \<times> card) list \<Rightarrow> nat" where
  "trick_winner_idx s t cs =
     (let leading_card = snd (hd cs);
          leading_suit = get_effective_suit s leading_card
      in winner_loop t leading_suit (zip [1 ..< length cs] (tl cs)) 0
           (get_card_value leading_card t leading_suit))"

text \<open>\<open>list.index\<close>: the first position of an element, \<open>ValueError\<close> when absent.\<close>

fun index_of :: "'a list \<Rightarrow> 'a \<Rightarrow> nat option" where
  "index_of [] x = None"
| "index_of (y # ys) x = (if y = x then Some 0 else map_option Suc (index_of ys x))"

text \<open>
  \<open>complete_trick\<close> up to its last statement: the winner is determined, the trick is
  archived with its \<open>winner\<close> field set, the current trick is replaced by an empty one
  and the winner's seat becomes \<open>current_player_index\<close>.
\<close>

definition resolve_trick :: "game \<Rightarrow> suit \<Rightarrow> error + game" where
  "resolve_trick s t =
     (let cs = cards (current_trick s);
          winner_idx = trick_winner_idx s t cs;
          winner_id = fst (cs ! winner_idx);
          s1 = s\<lparr>completed_tricks := completed_tricks s @ [(current_trick s)\<lparr>winner := winner_id\<rparr>],
                 current_trick := new_trick\<rparr>
      in case index_of (player_order s1) winner_id of
           None \<Rightarrow> Inl ValueError
         | Some i \<Rightarrow> Inr (s1\<lparr>current_player_index := i\<rparr>))"

definition complete_trick :: "(card list \<Rightarrow> card list) \<Rightarrow> game \<Rightarrow> error + game" where
  "complete_trick sh s =
     (case trump_suit s of
        None \<Rightarrow> Inr s
      | Some t \<Rightarrow>
          if length (cards (current_trick s)) \<noteq> 4 then Inr s
          else (case resolve_trick s t of
                  Inl e \<Rightarrow> Inl e
                | Inr s2 \<Rightarrow>
                    if length (completed_tricks s2) = 5 then complete_round sh s2
                    else Inr s2))"

definition play_card ::
  "(card list \<Rightarrow> card list) \<Rightarrow> string \<Rightarrow> card \<Rightarrow> game \<Rightarrow> error + (bool \<times> game)"
where
  "play_card sh pid c s =
     (if \<not> can_play_card s pid c then Inr (False, s)
      else (case map_of (players s) pid of
              None \<Rightarrow> Inl KeyError
            | Some p \<Rightarrow>
                let s1 = s\<lparr>players :=
                           AList.update pid (p\<lparr>hand := remove1 c (hand p)\<rparr>) (players s)\<rparr>;
                    tr = current_trick s1;
                    tr1 = (if cards tr = [] then tr\<lparr>leader := pid\<rparr> else tr);
                    tr2 = tr1\<lparr>cards := cards tr1 @ [(pid, c)]\<rparr>;
                    s2 = s1\<lparr>current_trick := tr2\<rparr>
                in if length (cards tr2) = 4
                   then (case complete_trick sh s2 of
                           Inl e \<Rightarrow> Inl e
                         | Inr s3 \<Rightarrow> Inr (True, s3))
                   else Inr (True,
                          s2\<lparr>current_player_index := (current_player_index s2 + 1) mod 4\<rparr>)))"

subsection \<open>Trump selection and going alone\<close>

definition start_playing_phase :: "game \<Rightarrow> game" where
  "start_playing_phase s =
     s\<lparr>phase := PLAYING, current_player_index := (dealer_index s + 1) mod 4\<rparr>"

text \<open>List indexing with a non-negative index, \<open>IndexError\<close> out of range.\<close>

definition nth_err :: "'a list \<Rightarrow> nat \<Rightarrow> error + 'a" where
  "nth_err xs i = (if i < length xs then Inr (xs ! i) else Inl IndexError)"

definition order_up :: "string \<Rightarrow> game \<Rightarrow> error + (bool \<times> game)" where
  "order_up pid s =
     (case trump_card s of
        None \<Rightarrow> Inl AttributeError
      | Some tc \<Rightarrow>
          let s1 = s\<lparr>trump_suit := Some (suit tc), trump_maker := Some pid\<rparr>
          in case nth_err (player_order s1) (dealer_index s1) of
               Inl e \<Rightarrow> Inl e
             | Inr did \<Rightarrow>
                 (case map_of (players s1) did of
                    None \<Rightarrow> Inl KeyError
                  | Some dealer \<Rightarrow>
                      Inr (True,
                        start_playing_phase
                          (s1\<lparr>players :=
                               AList.update did (dealer\<lparr>hand := hand dealer @ [tc]\<rparr>)
                                 (players s1)\<rparr>))))"

definition name_trump :: "string \<Rightarrow> suit \<Rightarrow> game \<Rightarrow> error + (bool \<times> game)" where
  "name_trump pid st s =
     (case trump_card s of
        None \<Rightarrow> Inl AttributeError
      | Some tc \<Rightarrow>
          if st \<noteq> suit tc
          then Inr (True, start_playing_phase (s\<lparr>trump_suit := Some st, trump_maker := Some pid\<rparr>))
          else Inr (False, s))"

definition pass_bid :: "(card list \<Rightarrow> card list) \<Rightarrow> game \<Rightarrow> error + (bool \<times> game)" where
  "pass_bid sh s =
     (let s1 = s\<lparr>trump_selection_player_index := (trump_selection_player_index s + 1) mod 4\<rparr>
      in if trump_selection_round s1 = 1 \<and>
            trump_selection_player_index s1 = (dealer_index s1 + 1) mod 4
         then Inr (True, s1\<lparr>trump_selection_round := 2\<rparr>)
         else if trump_selection_round s1 = 2 \<and>
                 trump_selection_player_index s1 = (dealer_index s1 + 1) mod 4
         then (case deal_cards sh s1 of Inl e \<Rightarrow> Inl e | Inr s2 \<Rightarrow> Inr (True, s2))
         else Inr (True, s1))"

text \<open>
  \<open>handle_trump_selection\<close>; its three branches are \<open>order_up\<close>, \<open>name_trump\<close> and
  \<open>pass_bid\<close> above. The optional suit is truthy exactly when it is given.
\<close>

definition handle_trump_selection ::
  "(card list \<Rightarrow> card list) \<Rightarrow> string \<Rightarrow> string \<Rightarrow> suit option \<Rightarrow> game \<Rightarrow> error + (bool \<times> game)"
where
  "handle_trump_selection sh pid action st s =
     (if phase s \<noteq> TRUMP_SELECTION then Inr (False, s)
      else case nth_err (player_order s) (trump_selection_player_index s) of
             Inl e \<Rightarrow> Inl e
           | Inr current_player_id \<Rightarrow>
               if pid \<noteq> current_player_id then Inr (False, s)
               else if action = ''order_up'' \<and> trump_selection_round s = 1 then order_up pid s
               else if action = ''name_trump'' \<and> trump_selection_round s = 2 \<and> st \<noteq> None
               then name_trump pid (the st) s
               else if action = ''pass'' then pass_bid sh s
               else Inr (False, s))"

definition handle_going_alone :: "string \<Rightarrow> bool \<Rightarrow> game \<Rightarrow> bool \<times> game" where
  "handle_going_alone pid ga s =
     (if Some pid = trump_maker s
      then (True, s\<lparr>going_alone := (if ga then Some pid else None)\<rparr>)
      else (False, s))"

section \<open>AI decision engine (ai\_player.py)\<close>

text \<open>
  The dataclass \<open>AIPersonality\<close>. Its fields are Python floats; they are read here as
  the real numbers their decimal literals denote. The results below on
  \<open>should_go_alone\<close> rest only on the comparison of \<open>risk_tolerance\<close> with 0.3 and
  on counting cards, not on rounded arithmetic.
\<close>

record ai_personality =
  name :: string
  aggression :: real
  conservatism :: real
  partnership_focus :: real
  risk_tolerance :: real

definition AI_PERSONALITIES :: "ai_personality list" where
  "AI_PERSONALITIES =
     [\<lparr>name = ''Ada'', aggression = 0.7, conservatism = 0.3, partnership_focus = 0.8,
       risk_tolerance = 0.6\<rparr>,
      \<lparr>name = ''Bob'', aggression = 0.3, conservatism = 0.7, partnership_focus = 0.6,
       risk_tolerance = 0.4\<rparr>,
      \<lparr>name = ''Clara'', aggression = 0.8, conservatism = 0.2, partnership_focus = 0.5,
       risk_tolerance = 0.8\<rparr>,
      \<lparr>name = ''Dave'', aggression = 0.5, conservatism = 0.5, partnership_focus = 0.9,
       risk_tolerance = 0.5\<rparr>]"

definition is_same_color_jack :: "card \<Rightarrow> suit \<Rightarrow> bool" where
  "is_same_color_jack c t =
     (if rank c \<noteq> JACK then False
      else (t \<in> {HEARTS, DIAMONDS} \<and> suit c \<in> {HEARTS, DIAMONDS}) \<or>
           (t \<in> {CLUBS, SPADES} \<and> suit c \<in> {CLUBS, SPADES}))"

definition ai_is_trump :: "card \<Rightarrow> suit \<Rightarrow> bool" where
  "ai_is_trump c t = (if suit c = t then True else rank c = JACK \<and> is_same_color_jack c t)"

text \<open>\<open>EuchreAI.get_card_value\<close>, which takes no leading suit.\<close>

definition ai_get_card_value :: "card \<Rightarrow> suit \<Rightarrow> int" where
  "ai_get_card_value c t =
     (if rank c = JACK \<and> suit c = t then 100
      else if rank c = JACK \<and> is_same_color_jack c t then 99
      else if suit c = t then 50 + rank_value (rank c)
      else rank_value (rank c))"

text \<open>The loop of \<open>evaluate_hand_strength\<close>, carrying \<open>strength\<close>, \<open>trump_count\<close>
  and \<open>off_aces\<close>.\<close>

fun strength_loop :: "suit \<Rightarrow> card list \<Rightarrow> real \<times> nat \<times> nat \<Rightarrow> real \<times> nat \<times> nat" where
  "strength_loop t [] acc = acc"
| "strength_loop t (c # cs) (strength, trump_count, off_aces) =
     strength_loop t cs
       (if ai_is_trump c t then
          (if rank c = JACK \<and> suit c = t then (strength + 0.25, trump_count + 1, off_aces)
           else if rank c = JACK \<and> is_same_color_jack c t
           then (strength + 0.20, trump_count + 1, off_aces)
           else if rank c = ACE then (strength + 0.15, trump_count + 1, off_aces)
           else (strength + 0.08, trump_count + 1, off_aces))
        else if rank c = ACE then (strength + 0.05, trump_count, off_aces + 1)
        else (strength, trump_count, off_aces))"

definition evaluate_hand_strength :: "card list \<Rightarrow> suit option \<Rightarrow> real" where
  "evaluate_hand_strength h ts =
     (case ts of
        None \<Rightarrow> 0
      | Some t \<Rightarrow>
          (case strength_loop t h (0, 0, 0) of
             (strength, trump_count, off_aces) \<Rightarrow>
               let s1 = (if trump_count \<ge> 3 then strength + 0.15
                         else if trump_count \<ge> 2 then strength + 0.08 else strength);
                   s2 = s1 + real off_aces * 0.03
               in min s2 1))"

text \<open>\<open>should_go_alone\<close>; the argument \<open>rnd\<close> is the value drawn by
  \<open>random.random()\<close>.\<close>

definition should_go_alone :: "ai_personality \<Rightarrow> real \<Rightarrow> card list \<Rightarrow> suit \<Rightarrow> bool" where
  "should_go_alone p rnd h t =
     (if risk_tolerance p < 0.3 then False
      else
        let strength = evaluate_hand_strength h (Some t);
            threshold = 0.8 - risk_tolerance p * 0.2;
            has_right_bower = list_ex (\<lambda>c. rank c = JACK \<and> suit c = t) h;
            has_left_bower = list_ex (\<lambda>c. rank c = JACK \<and> is_same_color_jack c t) h;
            trump_count = length (filter (\<lambda>c. ai_is_trump c t) h)
        in if has_right_bower \<and> has_left_bower \<and> trump_count \<ge> 3 then True
           else strength \<ge> threshold \<and> rnd < aggression p)"

section \<open>Vocabulary for the proofs\<close>

text \<open>
  The definitions of this section are not part of the program: they name the states the
  program's operations produce, the permutations a shuffle may apply, the operations of
  the engine's interface as one type of actions, and the invariants of a game.
\<close>

definition is_shuffle :: "(card list \<Rightarrow> card list) \<Rightarrow> bool" where
  "is_shuffle sh \<longleftrightarrow> (\<forall>xs. mset (sh xs) = mset xs)"

definition all_hands :: "(string \<times> player) list \<Rightarrow> card list" where
  "all_hands ps = concat (map (\<lambda>(k, p). hand p) ps)"



definition seated :: "game \<Rightarrow> bool" where
  "seated s \<longleftrightarrow>
     distinct (map fst (players s)) \<and> set (player_order s) = fst ` set (players s) \<and>
     length (player_order s) = 4 \<and> distinct (player_order s)"

definition table_ok :: "game \<Rightarrow> bool" where
  "table_ok s \<longleftrightarrow>
     seated s \<and> dealer_index s < 4 \<and> trump_selection_player_index s < 4 \<and>
     length (deck s) = 24 \<and> mset (deck s) = mset create_deck \<and>
     trump_card s = Some (deck s ! 20) \<and>
     (trump_suit s \<noteq> None \<longrightarrow> (\<exists>tm \<in> set (player_order s). trump_maker s = Some tm)) \<and>
     fst ` set (cards (current_trick s)) \<subseteq> set (player_order s) \<and>
     winner ` set (completed_tricks s) \<subseteq> set (player_order s)"

definition started :: "game \<Rightarrow> bool" where
  "started s \<longleftrightarrow>
     table_ok s \<and>
     phase s \<in> {TRUMP_SELECTION, PLAYING, GAME_COMPLETE} \<and>
     (phase s = TRUMP_SELECTION \<longrightarrow> trump_suit s = None) \<and>
     (phase s = GAME_COMPLETE \<longrightarrow>
        5 \<le> length (completed_tricks s) \<and> 10 \<le> max (team_scores s 0) (team_scores s 1)) \<and>
     (phase s \<noteq> GAME_COMPLETE \<longrightarrow>
        length (completed_tricks s) < 5 \<and> max (team_scores s 0) (team_scores s 1) < 10)"

definition waiting :: "game \<Rightarrow> bool" where
  "waiting s \<longleftrightarrow>
     phase s = WAITING_FOR_PLAYERS \<and> length (players s) < 4 \<and>
     distinct (map fst (players s)) \<and> set (player_order s) = fst ` set (players s) \<and>
     all_hands (players s) = [] \<and> completed_tricks s = [] \<and> cards (current_trick s) = [] \<and>
     trump_suit s = None \<and> trump_maker s = None \<and> dealer_index s = 0 \<and>
     team_scores s 0 = 0 \<and> team_scores s 1 = 0"

definition game_inv :: "game \<Rightarrow> bool" where
  "game_inv s \<longleftrightarrow> waiting s \<or> started s"

datatype action =
  Join string string bool | Bid string string "suit option" | GoAlone string bool | Play string card

definition apply_action ::
  "(card list \<Rightarrow> card list) \<Rightarrow> action \<Rightarrow> game \<Rightarrow> error + (bool \<times> game)"
where
  "apply_action sh a s =
     (case a of
        Join pid nm ai \<Rightarrow> add_player sh pid nm ai s
      | Bid pid act st \<Rightarrow> handle_trump_selection sh pid act st s
      | GoAlone pid ga \<Rightarrow> Inr (handle_going_alone pid ga s)
      | Play pid c \<Rightarrow> play_card sh pid c s)"

inductive reachable :: "game \<Rightarrow> bool" where
  reachable_new: "reachable (new_game rc)"
| reachable_step:
    "reachable s \<Longrightarrow> is_shuffle sh \<Longrightarrow> apply_action sh a s = Inr (ok, s') \<Longrightarrow> reachable s'"

definition team_of :: "game \<Rightarrow> string \<Rightarrow> nat" where
  "team_of s pid = (case map_of (players s) pid of None \<Rightarrow> 0 | Some p \<Rightarrow> position p mod 2)"

definition tricks_of_team :: "game \<Rightarrow> nat \<Rightarrow> nat" where
  "tricks_of_team s team =
     length (filter (\<lambda>t. team_of s (winner t) = team) (completed_tricks s))"

definition round_winner :: "game \<Rightarrow> nat" where
  "round_winner s = (if tricks_of_team s 0 > tricks_of_team s 1 then 0 else 1)"

definition round_award :: "game \<Rightarrow> string \<Rightarrow> int" where
  "round_award s tm =
     round_points_of (round_winner s = team_of s tm) (truthy (going_alone s))
       (tricks_of_team s (round_winner s))"

definition scored :: "game \<Rightarrow> string \<Rightarrow> game" where
  "scored s tm =
     s\<lparr>team_scores := (team_scores s)
          (round_winner s := team_scores s (round_winner s) + round_award s tm)\<rparr>"

definition lay_card :: "game \<Rightarrow> string \<Rightarrow> player \<Rightarrow> card \<Rightarrow> game" where
  "lay_card s pid p c =
     s\<lparr>players := AList.update pid (p\<lparr>hand := remove1 c (hand p)\<rparr>) (players s),
       current_trick := (current_trick s)
         \<lparr>leader := (if cards (current_trick s) = [] then pid else leader (current_trick s)),
          cards := cards (current_trick s) @ [(pid, c)]\<rparr>\<rparr>"

definition trick_winner_id :: "game \<Rightarrow> suit \<Rightarrow> string" where
  "trick_winner_id s t =
     fst (cards (current_trick s) ! trick_winner_idx s t (cards (current_trick s)))"

definition archived :: "game \<Rightarrow> suit \<Rightarrow> game" where
  "archived s t =
     s\<lparr>completed_tricks :=
         completed_tricks s @ [(current_trick s)\<lparr>winner := trick_winner_id s t\<rparr>],
       current_trick := new_trick,
       current_player_index := the (index_of (player_order s) (trick_winner_id s t))\<rparr>"

definition dealt_with :: "(card list \<Rightarrow> card list) \<Rightarrow> (string \<times> player) list \<Rightarrow> game \<Rightarrow> game" where
  "dealt_with sh ps s =
     s\<lparr>deck := sh create_deck, players := ps, trump_card := Some (sh create_deck ! 20),
       phase := TRUMP_SELECTION, trump_selection_round := 1,
       trump_selection_player_index := (dealer_index s + 1) mod 4\<rparr>"

definition fresh_hands :: "(card list \<Rightarrow> card list) \<Rightarrow> game \<Rightarrow> (string \<times> player) list \<Rightarrow> bool" where
  "fresh_hands sh s ps \<longleftrightarrow>
     map fst ps = map fst (players s) \<and>
     mset (all_hands ps) = mset (take 20 (sh create_deck)) \<and>
     (\<forall>(k, p) \<in> set ps. length (hand p) = 5) \<and>
     map (\<lambda>(k, p). position p) ps = map (\<lambda>(k, p). position p) (players s)"

definition cleared :: "game \<Rightarrow> game" where
  "cleared s =
     s\<lparr>completed_tricks := [], trump_suit := None, trump_card := None,
       trump_maker := None, going_alone := None,
       dealer_index := (dealer_index s + 1) mod 4\<rparr>"

definition picked_up :: "game \<Rightarrow> string \<Rightarrow> string \<Rightarrow> player \<Rightarrow> card \<Rightarrow> game" where
  "picked_up s pid did dealer tc =
     s\<lparr>trump_suit := Some (suit tc), trump_maker := Some pid,
       players := AList.update did (dealer\<lparr>hand := hand dealer @ [tc]\<rparr>) (players s),
       phase := PLAYING, current_player_index := (dealer_index s + 1) mod 4\<rparr>"

definition named :: "game \<Rightarrow> string \<Rightarrow> suit \<Rightarrow> game" where
  "named s pid st =
     s\<lparr>trump_suit := Some st, trump_maker := Some pid,
       phase := PLAYING, current_player_index := (dealer_index s + 1) mod 4\<rparr>"

definition passed :: "game \<Rightarrow> game" where
  "passed s = s\<lparr>trump_selection_player_index := (trump_selection_player_index s + 1) mod 4\<rparr>"

fun run :: "(card list \<Rightarrow> card list) \<Rightarrow> action list \<Rightarrow> game \<Rightarrow> error + game" where
  "run sh [] s = Inr s"
| "run sh (a # as) s =
     (case apply_action sh a s of Inl e \<Rightarrow> Inl e | Inr (_, s') \<Rightarrow> run sh as s')"

definition joined :: "game \<Rightarrow> string \<Rightarrow> string \<Rightarrow> bool \<Rightarrow> game" where
  "joined s pid nm ai =
     s\<lparr>players := AList.update pid
          \<lparr>player_id = pid, player_name = nm, hand = [], position = length (players s),
           is_connected = True, is_ai = ai\<rparr> (players s),
       player_order := player_order s @ [pid]\<rparr>"


section \<open>Sample data\<close>

text \<open>A seated player with a given hand, and two positions in a trick with hearts as
  trump: one where a king of hearts has been led, one where nothing has been led.\<close>

definition seat :: "string \<Rightarrow> nat \<Rightarrow> card list \<Rightarrow> player" where
  "seat pid pos h =
     \<lparr>player_id = pid, player_name = pid, hand = h, position = pos,
      is_connected = True, is_ai = False\<rparr>"

definition follower_hand :: "card list" where
  "follower_hand = [Card CLUBS NINE, Card DIAMONDS JACK, Card HEARTS ACE]"

definition following_game :: game where
  "following_game =
     (new_game ''R'')
       \<lparr>players := [(''a'', seat ''a'' 0 follower_hand)],
        trump_suit := Some HEARTS,
        current_trick := \<lparr>cards = [(''b'', Card HEARTS KING)], leader = ''b'', winner = []\<rparr>\<rparr>"

definition leading_game :: game where
  "leading_game =
     (new_game ''R'')
       \<lparr>players := [(''a'', seat ''a'' 0 follower_hand)], trump_suit := Some HEARTS\<rparr>"

definition timid :: ai_personality where
  "timid = \<lparr>name = ''Timid'', aggression = 0.5, conservatism = 0.5,
            partnership_focus = 0.5, risk_tolerance = 0.2\<rparr>"

definition bower_hand :: "card list" where
  "bower_hand =
     [Card HEARTS JACK, Card DIAMONDS JACK, Card HEARTS NINE, Card CLUBS NINE, Card SPADES NINE]"

text \<open>A game in room R with four players a, b, c and d, whose shuffles all leave the
  deck in the order of \<open>create_deck\<close>; \<open>after as\<close> is the game after the actions
  \<open>as\<close>.\<close>


definition keep :: "card list \<Rightarrow> card list" where
  "keep dk = dk"

definition joins :: "action list" where
  "joins = [Join ''a'' ''A'' False, Join ''b'' ''B'' False, Join ''c'' ''C'' False,
            Join ''d'' ''D'' False]"

definition after :: "action list \<Rightarrow> game" where
  "after as = (case run keep as (new_game ''R'') of Inl e \<Rightarrow> new_game ''R'' | Inr s \<Rightarrow> s)"

definition hand_sizes :: "game \<Rightarrow> nat list" where
  "hand_sizes s = map (\<lambda>(k, p). length (hand p)) (players s)"

definition order_up_by_b :: "action list" where
  "order_up_by_b = joins @ [Bid ''b'' ''order_up'' None]"

definition seven_passes :: "action list" where
  "seven_passes =
     joins @ [Bid ''b'' ''pass'' None, Bid ''c'' ''pass'' None, Bid ''d'' ''pass'' None,
              Bid ''a'' ''pass'' None, Bid ''b'' ''pass'' None, Bid ''c'' ''pass'' None,
              Bid ''d'' ''pass'' None]"

definition b_has_led :: "action list" where
  "b_has_led = order_up_by_b @ [Play ''b'' (Card HEARTS TEN)]"









section \<open>Auxiliary lemmas\<close>

lemma create_deck_length: "length create_deck = 24"
  by (simp add: create_deck_def)

lemma create_deck_distinct: "distinct create_deck"
  by (simp add: create_deck_def)

lemma create_deck_complete: "c \<in> set create_deck"
  by (cases c; cases "suit c"; cases "rank c") (auto simp: create_deck_def)

lemma shuffle_length: "is_shuffle sh \<Longrightarrow> length (sh xs) = length xs"
  unfolding is_shuffle_def by (metis size_mset)

lemma deal_loop_index:
  "deal_loop ord dk i ps = Inr (j, ps') \<Longrightarrow> j = i + length ord"
  by (induction ord dk i ps rule: deal_loop.induct) (auto split: option.splits if_splits)

lemma all_hands_update:
  "distinct (map fst ps) \<Longrightarrow> map_of ps k = Some p \<Longrightarrow>
   mset (all_hands (AList.update k p' ps)) + mset (hand p) = mset (all_hands ps) + mset (hand p')"
  by (induction ps) (auto simp: all_hands_def image_iff dest: map_of_SomeD)

lemma all_hands_cleared: "all_hands (map (\<lambda>(k, p). (k, p\<lparr>hand := []\<rparr>)) ps) = []"
  by (induction ps) (auto simp: all_hands_def)

lemma keys_update_present:
  "map_of ps k = Some p \<Longrightarrow> map fst (AList.update k p' ps) = map fst ps"
  by (simp add: AList.update_keys image_iff) (metis fst_conv map_of_SomeD)

lemma deal_loop_deals:
  "distinct (map fst ps) \<Longrightarrow> set ord \<subseteq> fst ` set ps \<Longrightarrow> i + length ord \<le> length dk \<Longrightarrow>
   \<exists>ps'. deal_loop ord dk i ps = Inr (i + length ord, ps') \<and>
         map fst ps' = map fst ps \<and>
         mset (all_hands ps') = mset (all_hands ps) + mset (take (length ord) (drop i dk)) \<and>
         (\<forall>k. map_option (\<lambda>p. length (hand p)) (map_of ps' k) =
              map_option (\<lambda>p. length (hand p) + count_list ord k) (map_of ps k)) \<and>
         map (\<lambda>(k, p). position p) ps' = map (\<lambda>(k, p). position p) ps"
proof (induction ord dk i ps rule: deal_loop.induct)
  case (1 dk i ps)
  then show ?case by (simp add: option.map_ident)
next
  case (2 pid rest dk i ps)
  from 2(3) have "pid \<in> dom (map_of ps)"
    by (simp add: dom_map_of_conv_image_fst)
  then obtain p where p: "map_of ps pid = Some p"
    by blast
  let ?ps1 = "AList.update pid (p\<lparr>hand := hand p @ [dk ! i]\<rparr>) ps"
  have i: "i < length dk" using 2(4) by simp
  have k1: "map fst ?ps1 = map fst ps" using p by (rule keys_update_present)
  have d1: "distinct (map fst ?ps1)" using 2(2) k1 by simp
  have s1: "set rest \<subseteq> fst ` set ?ps1" using 2(3) k1 by (metis list.set_map set_subset_Cons subset_trans)
  have l1: "Suc i + length rest \<le> length dk" using 2(4) by simp
  from 2(1)[OF p i d1 s1 l1] obtain ps' where
    r: "deal_loop rest dk (Suc i) ?ps1 = Inr (Suc i + length rest, ps')"
    and k: "map fst ps' = map fst ?ps1"
    and m: "mset (all_hands ps') = mset (all_hands ?ps1) + mset (take (length rest) (drop (Suc i) dk))"
    and n: "\<forall>k. map_option (\<lambda>p. length (hand p)) (map_of ps' k) =
              map_option (\<lambda>p. length (hand p) + count_list rest k) (map_of ?ps1 k)"
    and q: "map (\<lambda>(k, p). position p) ps' = map (\<lambda>(k, p). position p) ?ps1"
    by blast
  have m1: "mset (all_hands ?ps1) = mset (all_hands ps) + {#dk ! i#}"
    using all_hands_update[OF 2(2) p, of "p\<lparr>hand := hand p @ [dk ! i]\<rparr>"] by simp
  have t: "take (Suc (length rest)) (drop i dk) = dk ! i # take (length rest) (drop (Suc i) dk)"
    using i by (metis Cons_nth_drop_Suc take_Suc_Cons)
  have q1: "map (\<lambda>(k, p). position p) ?ps1 = map (\<lambda>(k, p). position p) ps"
    using p by (induction ps) (auto split: if_splits)
  have n1: "\<forall>k. map_option (\<lambda>p. length (hand p) + count_list rest k) (map_of ?ps1 k) =
              map_option (\<lambda>p. length (hand p) + count_list (pid # rest) k) (map_of ps k)"
    using p by (auto simp: AList.update_conv')
  show ?case
    using p i r k k1 m m1 t n n1 q q1 by (simp add: ac_simps)
qed

lemma length_concat_replicate: "length (concat (replicate n xs)) = n * length xs"
  by (induction n) auto

lemma count_list_concat_replicate:
  "count_list (concat (replicate n xs)) x = n * count_list xs x"
  by (induction n) auto

lemma count_list_distinct: "distinct xs \<Longrightarrow> x \<in> set xs \<Longrightarrow> count_list xs x = 1"
  by (induction xs) auto

lemma deal_cards_seated:
  assumes sh: "is_shuffle sh" and st: "seated s"
  shows "\<exists>ps. deal_cards sh s =
            Inr (s\<lparr>deck := sh create_deck, players := ps,
                   trump_card := Some (sh create_deck ! 20), phase := TRUMP_SELECTION,
                   trump_selection_round := 1,
                   trump_selection_player_index := (dealer_index s + 1) mod 4\<rparr>) \<and>
          map fst ps = map fst (players s) \<and>
          mset (all_hands ps) = mset (take 20 (sh create_deck)) \<and>
          (\<forall>(k, p) \<in> set ps. length (hand p) = 5) \<and>
          map (\<lambda>(k, p). position p) ps = map (\<lambda>(k, p). position p) (players s)"
proof -
  let ?dk = "sh create_deck"
  let ?ps0 = "map (\<lambda>(k, p). (k, p\<lparr>hand := []\<rparr>)) (players s)"
  let ?ord = "concat (replicate 5 (player_order s))"
  have len: "length ?dk = 24"
    using sh by (simp add: shuffle_length create_deck_length)
  have k0: "map fst ?ps0 = map fst (players s)"
    by (induction "players s") auto
  have d0: "distinct (map fst ?ps0)"
    unfolding k0 using st by (simp add: seated_def)
  have lo: "length ?ord = 20"
    using st by (simp add: length_concat_replicate seated_def)
  have so: "set ?ord \<subseteq> fst ` set ?ps0"
  proof -
    have "set ?ord \<subseteq> set (player_order s)" by auto
    moreover have "fst ` set ?ps0 = fst ` set (players s)"
      using arg_cong[OF k0, of set] by (simp only: set_map)
    ultimately show ?thesis using st unfolding seated_def by blast
  qed
  have b: "0 + length ?ord \<le> length ?dk"
    using lo len by simp
  from deal_loop_deals[OF d0 so b] obtain ps where
    r: "deal_loop ?ord ?dk 0 ?ps0 = Inr (20, ps)"
    and k: "map fst ps = map fst ?ps0"
    and m: "mset (all_hands ps) = mset (all_hands ?ps0) + mset (take (length ?ord) (drop 0 ?dk))"
    and n: "\<forall>k. map_option (\<lambda>p. length (hand p)) (map_of ps k) =
              map_option (\<lambda>p. length (hand p) + count_list ?ord k) (map_of ?ps0 k)"
    and q: "map (\<lambda>(k, p). position p) ps = map (\<lambda>(k, p). position p) ?ps0"
    using lo by auto
  have q0: "map (\<lambda>(k, p). position p) ?ps0 = map (\<lambda>(k, p). position p) (players s)"
    by (induction "players s") auto
  have five: "\<forall>(k, p) \<in> set ps. length (hand p) = 5"
  proof (clarify)
    fix k p assume kp: "(k, p) \<in> set ps"
    have dps: "distinct (map fst ps)" using k d0 by simp
    then have mp: "map_of ps k = Some p" using kp by simp
    have "k \<in> set (map fst ?ps0)" using kp k by (metis fst_conv image_eqI list.set_map)
    then have kin: "k \<in> set (player_order s)" using st k0 by (simp add: seated_def)
    have c: "count_list ?ord k = 5"
      using st kin by (simp add: count_list_concat_replicate count_list_distinct seated_def)
    from kin have "k \<in> dom (map_of (players s))"
      using st by (simp add: seated_def dom_map_of_conv_image_fst)
    then obtain p0 where p0: "map_of (players s) k = Some p0"
      by blast
    have "map_of ?ps0 k = Some (p0\<lparr>hand := []\<rparr>)"
      using p0 by (simp add: map_of_map)
    then show "length (hand p) = 5"
      using n[rule_format, of k] mp c by simp
  qed
  have kk: "map fst ps = map fst (players s)"
    using k k0 by (rule trans)
  have qq: "map (\<lambda>(k, p). position p) ps = map (\<lambda>(k, p). position p) (players s)"
    using q q0 by (rule trans)
  have mm: "mset (all_hands ps) = mset (take 20 (sh create_deck))"
    using m lo by (simp add: all_hands_cleared)
  have dc: "deal_cards sh s =
      Inr (s\<lparr>deck := sh create_deck, players := ps,
             trump_card := Some (sh create_deck ! 20), phase := TRUMP_SELECTION,
             trump_selection_round := 1,
             trump_selection_player_index := (dealer_index s + 1) mod 4\<rparr>)"
    using r len by (simp add: deal_cards_def Let_def)
  show ?thesis
    using dc kk mm five qq by blast
qed

lemma deal_cards_seats:
  assumes "is_shuffle sh" and "deal_cards sh s = Inr s'"
  shows "length (player_order s) \<le> 4"
proof -
  from assms(2) obtain i ps where
    r: "deal_loop (concat (replicate 5 (player_order s))) (sh create_deck) 0
          (map (\<lambda>(k, p). (k, p\<lparr>hand := []\<rparr>)) (players s)) = Inr (i, ps)"
    and i: "i < length (sh create_deck)"
    by (auto simp: deal_cards_def Let_def split: sum.splits if_splits)
  from deal_loop_index[OF r] have "i = 5 * length (player_order s)"
    by (simp add: length_concat_replicate)
  then show ?thesis
    using i assms(1) by (simp add: shuffle_length create_deck_length)
qed

lemma seated_lookup:
  "seated s \<Longrightarrow> pid \<in> set (player_order s) \<Longrightarrow> \<exists>p. map_of (players s) pid = Some p"
proof -
  assume "seated s" "pid \<in> set (player_order s)"
  then have "pid \<in> dom (map_of (players s))"
    by (simp add: seated_def dom_map_of_conv_image_fst)
  then show ?thesis by blast
qed

lemma lookup_seated:
  "seated s \<Longrightarrow> map_of (players s) pid = Some p \<Longrightarrow> pid \<in> set (player_order s)"
proof -
  assume a: "seated s" "map_of (players s) pid = Some p"
  then have "pid \<in> dom (map_of (players s))" by blast
  then show ?thesis using a(1) by (simp add: seated_def dom_map_of_conv_image_fst)
qed

lemma seated_length: "seated s \<Longrightarrow> length (players s) = 4"
proof -
  assume a: "seated s"
  then have d1: "distinct (map fst (players s))"
    and e: "set (player_order s) = fst ` set (players s)"
    and l: "length (player_order s) = 4" and d2: "distinct (player_order s)"
    by (simp_all add: seated_def)
  have "length (players s) = length (map fst (players s))" by simp
  also have "\<dots> = card (set (map fst (players s)))"
    using distinct_card[OF d1] by simp
  also have "\<dots> = card (set (player_order s))"
    unfolding e by simp
  also have "\<dots> = 4"
    using distinct_card[OF d2] l by simp
  finally show ?thesis .
qed

lemma index_of_member: "x \<in> set xs \<Longrightarrow> \<exists>i. index_of xs x = Some i \<and> i < length xs \<and> xs ! i = x"
  by (induction xs) auto

lemma winner_loop_range: "winner_loop t l xs w h \<in> insert w (fst ` set xs)"
  by (induction t l xs w h rule: winner_loop.induct) (auto simp: Let_def)

lemma trick_winner_idx_less: "cs \<noteq> [] \<Longrightarrow> trick_winner_idx s t cs < length cs"
proof -
  assume ne: "cs \<noteq> []"
  define xs where "xs = zip [1 ..< length cs] (tl cs)"
  define l where "l = get_effective_suit s (snd (hd cs))"
  define h where "h = get_card_value (snd (hd cs)) t l"
  have b: "fst x < length cs" if "x \<in> set xs" for x
  proof -
    from that have "(fst x, snd x) \<in> set (zip [1 ..< length cs] (tl cs))"
      by (simp add: xs_def)
    then have "fst x \<in> set [1 ..< length cs]"
      by (rule set_zip_leftD)
    then show ?thesis by simp
  qed
  have "winner_loop t l xs 0 h \<in> insert 0 (fst ` set xs)"
    by (rule winner_loop_range)
  then have "winner_loop t l xs 0 h < length cs"
    using b ne by (elim insertE imageE) simp_all
  then show ?thesis
    by (simp add: trick_winner_idx_def Let_def xs_def l_def h_def)
qed

lemma count_tricks_seated:
  "winner ` set ts \<subseteq> fst ` set ps \<Longrightarrow>
   count_tricks ps ts tt =
     Inr (\<lambda>team. tt team +
        length (filter (\<lambda>t. (case map_of ps (winner t) of None \<Rightarrow> 0 | Some p \<Rightarrow> position p mod 2) = team) ts))"
proof (induction ts arbitrary: tt)
  case Nil
  then show ?case by simp
next
  case (Cons a ts)
  from Cons(2) have "winner a \<in> dom (map_of ps)"
    by (simp add: dom_map_of_conv_image_fst)
  then obtain p where p: "map_of ps (winner a) = Some p"
    by blast
  have "winner ` set ts \<subseteq> fst ` set ps" using Cons(2) by auto
  from Cons(1)[OF this] show ?case
    using p by (auto simp: Let_def fun_eq_iff)
qed









lemma seated_fields:
  "players s' = players s \<Longrightarrow> player_order s' = player_order s \<Longrightarrow> seated s' = seated s"
  by (simp add: seated_def)

lemma start_next_round_seated:
  assumes sh: "is_shuffle sh" and st: "seated s"
  shows "\<exists>ps. start_next_round sh s =
            Inr (s\<lparr>completed_tricks := [], trump_suit := None, trump_maker := None,
                   going_alone := None, dealer_index := (dealer_index s + 1) mod 4,
                   deck := sh create_deck, players := ps,
                   trump_card := Some (sh create_deck ! 20), phase := TRUMP_SELECTION,
                   trump_selection_round := 1,
                   trump_selection_player_index := ((dealer_index s + 1) mod 4 + 1) mod 4\<rparr>) \<and>
          map fst ps = map fst (players s) \<and>
          mset (all_hands ps) = mset (take 20 (sh create_deck)) \<and>
          (\<forall>(k, p) \<in> set ps. length (hand p) = 5) \<and>
          map (\<lambda>(k, p). position p) ps = map (\<lambda>(k, p). position p) (players s)"
proof -
  let ?s0 = "s\<lparr>completed_tricks := [], trump_suit := None, trump_card := None,
          trump_maker := None, going_alone := None,
          dealer_index := (dealer_index s + 1) mod 4\<rparr>"
  have "seated ?s0" using st by (simp add: seated_def)
  from deal_cards_seated[OF sh this] show ?thesis
    by (simp add: start_next_round_def)
qed



lemma complete_round_unfold:
  assumes ok: "seated s" and w: "winner ` set (completed_tricks s) \<subseteq> set (player_order s)"
    and tm: "trump_maker s = Some tm" "tm \<in> set (player_order s)"
  shows "complete_round sh s =
           (if 10 \<le> max (team_scores (scored s tm) 0) (team_scores (scored s tm) 1)
            then Inr ((scored s tm)\<lparr>phase := GAME_COMPLETE\<rparr>)
            else start_next_round sh (scored s tm))"
proof -
  have w': "winner ` set (completed_tricks s) \<subseteq> fst ` set (players s)"
    using w ok by (simp add: seated_def)
  have ct: "count_tricks (players s) (completed_tricks s) (\<lambda>_. 0) = Inr (tricks_of_team s)"
    unfolding count_tricks_seated[OF w'] by (simp add: tricks_of_team_def team_of_def fun_eq_iff)
  from seated_lookup[OF ok tm(2)] obtain mp where mp: "map_of (players s) tm = Some mp"
    by blast
  have T: "position mp mod 2 = team_of s tm"
    using mp by (simp add: team_of_def)
  show ?thesis
    unfolding complete_round_def ct
    by (simp add: tm mp T Let_def scored_def round_award_def round_winner_def)
qed

lemma can_play_cardD:
  "can_play_card s pid c \<Longrightarrow> \<exists>p. map_of (players s) pid = Some p \<and> c \<in> set (hand p)"
  by (auto simp: can_play_card_def split: option.splits if_splits)

lemma play_card_rejected: "\<not> can_play_card s pid c \<Longrightarrow> play_card sh pid c s = Inr (False, s)"
  by (simp add: play_card_def)

lemma play_card_unfold:
  assumes "can_play_card s pid c" and "map_of (players s) pid = Some p"
  shows "play_card sh pid c s =
     (if length (cards (current_trick s)) = 3
      then (case complete_trick sh (lay_card s pid p c) of
              Inl e \<Rightarrow> Inl e | Inr s3 \<Rightarrow> Inr (True, s3))
      else Inr (True, (lay_card s pid p c)
                  \<lparr>current_player_index := (current_player_index s + 1) mod 4\<rparr>))"
proof -
  have e: "(if cards (current_trick s) = [] then (current_trick s)\<lparr>leader := pid\<rparr>
            else current_trick s)
           \<lparr>cards := cards (if cards (current_trick s) = [] then (current_trick s)\<lparr>leader := pid\<rparr>
                            else current_trick s) @ [(pid, c)]\<rparr> =
        (current_trick s)
         \<lparr>leader := (if cards (current_trick s) = [] then pid else leader (current_trick s)),
          cards := cards (current_trick s) @ [(pid, c)]\<rparr>"
    by simp
  show ?thesis
    using assms unfolding play_card_def lay_card_def Let_def
    by (simp add: e)
qed

lemma trick_winner_id_member:
  "cards (current_trick s) \<noteq> [] \<Longrightarrow> trick_winner_id s t \<in> fst ` set (cards (current_trick s))"
  unfolding trick_winner_id_def
  using trick_winner_idx_less[of "cards (current_trick s)" s t] by (simp add: nth_mem)

lemma resolve_trick_archived:
  assumes "trick_winner_id s t \<in> set (player_order s)"
  shows "resolve_trick s t = Inr (archived s t)"
proof -
  from index_of_member[OF assms] obtain i where
    "index_of (player_order s) (trick_winner_id s t) = Some i" by blast
  then show ?thesis
    by (simp add: resolve_trick_def archived_def Let_def trick_winner_id_def)
qed

lemma complete_trick_unfold:
  assumes "trump_suit s = Some t" and "length (cards (current_trick s)) = 4"
    and "trick_winner_id s t \<in> set (player_order s)"
  shows "complete_trick sh s =
     (if length (completed_tricks s) = 4 then complete_round sh (archived s t)
      else Inr (archived s t))"
  using assms(1,2) resolve_trick_archived[OF assms(3)]
  by (simp add: complete_trick_def archived_def)

lemma table_ok_lay_card:
  assumes "table_ok s" and "map_of (players s) pid = Some p"
  shows "table_ok (lay_card s pid p c)"
proof -
  have k: "map fst (AList.update pid (p\<lparr>hand := remove1 c (hand p)\<rparr>) (players s)) =
           map fst (players s)"
    using assms(2) by (rule keys_update_present)
  have st: "seated s" using assms(1) by (simp add: table_ok_def)
  have pid: "pid \<in> set (player_order s)"
    using st assms(2) by (rule lookup_seated)
  have ks: "fst ` set (AList.update pid (p\<lparr>hand := remove1 c (hand p)\<rparr>) (players s)) =
            fst ` set (players s)"
    using arg_cong[OF k, of set] by (simp only: set_map)
  have "seated (lay_card s pid p c)"
    using st unfolding seated_def lay_card_def
    by (simp add: k ks)
  then show ?thesis
    using assms(1) pid unfolding table_ok_def lay_card_def by simp
qed

lemma table_ok_archived:
  assumes "table_ok s" and "cards (current_trick s) \<noteq> []"
  shows "table_ok (archived s t)" and "trick_winner_id s t \<in> set (player_order s)"
proof -
  show w: "trick_winner_id s t \<in> set (player_order s)"
    using trick_winner_id_member[OF assms(2), of t] assms(1) unfolding table_ok_def by blast
  have "seated (archived s t)"
    using assms(1) by (simp add: table_ok_def seated_def archived_def)
  then show "table_ok (archived s t)"
    using assms(1) w unfolding table_ok_def archived_def by (simp add: new_trick_def)
qed

lemma deal_cards_dealt:
  assumes "is_shuffle sh" and "seated s"
  shows "\<exists>ps. deal_cards sh s = Inr (dealt_with sh ps s) \<and> fresh_hands sh s ps"
  using deal_cards_seated[OF assms] unfolding dealt_with_def fresh_hands_def by blast

lemma start_next_round_cleared: "start_next_round sh s = deal_cards sh (cleared s)"
  by (simp add: start_next_round_def cleared_def)

lemma seated_dealt_with:
  "seated s \<Longrightarrow> fresh_hands sh s ps \<Longrightarrow> seated (dealt_with sh ps s)"
proof -
  assume a: "seated s" "fresh_hands sh s ps"
  then have k: "map fst ps = map fst (players s)" by (simp add: fresh_hands_def)
  have "fst ` set ps = fst ` set (players s)"
    using arg_cong[OF k, of set] by (simp only: set_map)
  then show ?thesis using a(1) k by (simp add: seated_def dealt_with_def)
qed

lemma table_ok_dealt_with:
  assumes "is_shuffle sh" and "seated s" and "fresh_hands sh s ps"
    and "dealer_index s < 4" and "trump_suit s = None"
    and "fst ` set (cards (current_trick s)) \<subseteq> set (player_order s)"
    and "winner ` set (completed_tricks s) \<subseteq> set (player_order s)"
  shows "table_ok (dealt_with sh ps s)"
proof -
  have l: "length (sh create_deck) = 24"
    using assms(1) by (simp add: shuffle_length create_deck_length)
  have m: "mset (sh create_deck) = mset create_deck"
    using assms(1) by (simp add: is_shuffle_def)
  have "seated (dealt_with sh ps s)" using assms(2,3) by (rule seated_dealt_with)
  then show ?thesis
    using assms(4-7) l m unfolding table_ok_def by (simp add: dealt_with_def)
qed

lemma play_card_cases [consumes 2, case_names rejected laid stuck trick game_over next_round]:
  assumes ok: "table_ok s" and sh: "is_shuffle sh"
  obtains
    "\<not> can_play_card s pid c" "play_card sh pid c s = Inr (False, s)"
  | p where "map_of (players s) pid = Some p" "c \<in> set (hand p)"
      "length (cards (current_trick s)) \<noteq> 3"
      "play_card sh pid c s =
         Inr (True, (lay_card s pid p c)\<lparr>current_player_index := (current_player_index s + 1) mod 4\<rparr>)"
  | p where "map_of (players s) pid = Some p" "c \<in> set (hand p)"
      "length (cards (current_trick s)) = 3" "trump_suit s = None"
      "play_card sh pid c s = Inr (True, lay_card s pid p c)"
  | p t where "map_of (players s) pid = Some p" "c \<in> set (hand p)"
      "length (cards (current_trick s)) = 3" "trump_suit s = Some t"
      "length (completed_tricks s) \<noteq> 4"
      "play_card sh pid c s = Inr (True, archived (lay_card s pid p c) t)"
  | p t tm where "map_of (players s) pid = Some p" "c \<in> set (hand p)"
      "length (cards (current_trick s)) = 3" "trump_suit s = Some t"
      "length (completed_tricks s) = 4" "trump_maker s = Some tm" "tm \<in> set (player_order s)"
      "10 \<le> max (team_scores (scored (archived (lay_card s pid p c) t) tm) 0)
                (team_scores (scored (archived (lay_card s pid p c) t) tm) 1)"
      "play_card sh pid c s =
         Inr (True, (scored (archived (lay_card s pid p c) t) tm)\<lparr>phase := GAME_COMPLETE\<rparr>)"
  | p t tm ps where "map_of (players s) pid = Some p" "c \<in> set (hand p)"
      "length (cards (current_trick s)) = 3" "trump_suit s = Some t"
      "length (completed_tricks s) = 4" "trump_maker s = Some tm" "tm \<in> set (player_order s)"
      "\<not> 10 \<le> max (team_scores (scored (archived (lay_card s pid p c) t) tm) 0)
                (team_scores (scored (archived (lay_card s pid p c) t) tm) 1)"
      "fresh_hands sh (cleared (scored (archived (lay_card s pid p c) t) tm)) ps"
      "play_card sh pid c s =
         Inr (True, dealt_with sh ps (cleared (scored (archived (lay_card s pid p c) t) tm)))"
proof (cases "can_play_card s pid c")
  case False
  then show ?thesis using that(1) play_card_rejected by blast
next
  case True
  from can_play_cardD[OF True] obtain p where
    p: "map_of (players s) pid = Some p" "c \<in> set (hand p)" by blast
  note u = play_card_unfold[OF True p(1), of sh]
  let ?L = "lay_card s pid p c"
  have okL: "table_ok ?L" using ok p(1) by (rule table_ok_lay_card)
  show ?thesis
  proof (cases "length (cards (current_trick s)) = 3")
    case False
    then show ?thesis using that(2)[OF p] u by simp
  next
    case three: True
    have four: "length (cards (current_trick ?L)) = 4"
      using three by (simp add: lay_card_def)
    then have ne: "cards (current_trick ?L) \<noteq> []" by auto
    show ?thesis
    proof (cases "trump_suit s")
      case None
      then have "complete_trick sh ?L = Inr ?L"
        by (simp add: complete_trick_def lay_card_def)
      then show ?thesis using that(3)[OF p three None] u three by simp
    next
      case (Some t)
      then have tL: "trump_suit ?L = Some t" by (simp add: lay_card_def)
      note okA = table_ok_archived[OF okL ne, of t]
      have cL: "completed_tricks ?L = completed_tricks s" by (simp add: lay_card_def)
      note ct = complete_trick_unfold[OF tL four okA(2), of sh, unfolded cL]
      show ?thesis
      proof (cases "length (completed_tricks s) = 4")
        case False
        then show ?thesis using that(4)[OF p three Some False] u three ct by simp
      next
        case c4: True
        let ?A = "archived ?L t"
        from ok Some obtain tm where tm: "trump_maker s = Some tm" "tm \<in> set (player_order s)"
          unfolding table_ok_def by auto
        have stA: "seated ?A" using okA(1) by (simp add: table_ok_def)
        have wA: "winner ` set (completed_tricks ?A) \<subseteq> set (player_order ?A)"
          using okA(1) by (simp add: table_ok_def)
        have tmA: "trump_maker ?A = Some tm" "tm \<in> set (player_order ?A)"
          using tm by (simp_all add: archived_def lay_card_def)
        note cr = complete_round_unfold[OF stA wA tmA, of sh]
        let ?S = "scored ?A tm"
        show ?thesis
        proof (cases "10 \<le> max (team_scores ?S 0) (team_scores ?S 1)")
          case True
          then show ?thesis
            using that(5)[OF p three Some c4 tm True] u three ct c4 cr by simp
        next
          case False
          have "seated (cleared ?S)"
            using stA by (simp add: seated_def cleared_def scored_def)
          from deal_cards_dealt[OF sh this] obtain ps where
            ps: "deal_cards sh (cleared ?S) = Inr (dealt_with sh ps (cleared ?S))"
              "fresh_hands sh (cleared ?S) ps"
            by blast
          show ?thesis
            using that(6)[OF p three Some c4 tm False ps(2)] u three ct c4 cr False ps(1)
            by (simp add: start_next_round_cleared)
        qed
      qed
    qed
  qed
qed

lemma bid_not_current:
  assumes "table_ok s"
    and "\<not> (phase s = TRUMP_SELECTION \<and> pid = player_order s ! trump_selection_player_index s)"
  shows "handle_trump_selection sh pid act st s = Inr (False, s)"
proof -
  have "trump_selection_player_index s < length (player_order s)"
    using assms(1) by (simp add: table_ok_def seated_def)
  then have "nth_err (player_order s) (trump_selection_player_index s) =
      Inr (player_order s ! trump_selection_player_index s)"
    by (simp add: nth_err_def)
  then show ?thesis
    using assms(2) unfolding handle_trump_selection_def by auto
qed

lemma bid_current:
  assumes "table_ok s" and "phase s = TRUMP_SELECTION"
    and "pid = player_order s ! trump_selection_player_index s"
  shows "handle_trump_selection sh pid act st s =
     (if act = ''order_up'' \<and> trump_selection_round s = 1 then order_up pid s
      else if act = ''name_trump'' \<and> trump_selection_round s = 2 \<and> st \<noteq> None
      then name_trump pid (the st) s
      else if act = ''pass'' then pass_bid sh s
      else Inr (False, s))"
proof -
  have "trump_selection_player_index s < length (player_order s)"
    using assms(1) by (simp add: table_ok_def seated_def)
  then have "nth_err (player_order s) (trump_selection_player_index s) = Inr pid"
    using assms(3) by (simp add: nth_err_def)
  then show ?thesis
    unfolding handle_trump_selection_def using assms(2) by simp
qed

lemma order_up_picked_up:
  assumes "table_ok s"
  shows "\<exists>tc dealer. trump_card s = Some tc \<and>
           map_of (players s) (player_order s ! dealer_index s) = Some dealer \<and>
           order_up pid s = Inr (True, picked_up s pid (player_order s ! dealer_index s) dealer tc)"
proof -
  have st: "seated s" using assms by (simp add: table_ok_def)
  have dl: "dealer_index s < length (player_order s)"
    using assms by (simp add: table_ok_def seated_def)
  from assms obtain tc where tc: "trump_card s = Some tc" by (simp add: table_ok_def)
  have "player_order s ! dealer_index s \<in> set (player_order s)"
    using dl by simp
  from seated_lookup[OF st this] obtain dealer where
    d: "map_of (players s) (player_order s ! dealer_index s) = Some dealer" by blast
  have "order_up pid s = Inr (True, picked_up s pid (player_order s ! dealer_index s) dealer tc)"
    using dl tc d
    by (simp add: order_up_def nth_err_def start_playing_phase_def picked_up_def Let_def)
  then show ?thesis using tc d by blast
qed

lemma name_trump_named:
  assumes "trump_card s = Some tc"
  shows "name_trump pid u s = (if u \<noteq> suit tc then Inr (True, named s pid u) else Inr (False, s))"
  using assms by (simp add: name_trump_def start_playing_phase_def named_def)

lemma pass_bid_passed:
  "pass_bid sh s =
     (if trump_selection_round s = 1 \<and>
         (trump_selection_player_index s + 1) mod 4 = (dealer_index s + 1) mod 4
      then Inr (True, (passed s)\<lparr>trump_selection_round := 2\<rparr>)
      else if trump_selection_round s = 2 \<and>
         (trump_selection_player_index s + 1) mod 4 = (dealer_index s + 1) mod 4
      then (case deal_cards sh (passed s) of Inl e \<Rightarrow> Inl e | Inr s2 \<Rightarrow> Inr (True, s2))
      else Inr (True, passed s))"
  by (simp add: pass_bid_def passed_def Let_def)

lemma table_ok_scored: "table_ok (scored s tm) = table_ok s"
  by (simp add: table_ok_def seated_def scored_def)

lemma table_ok_current_player_index:
  "table_ok (s\<lparr>current_player_index := i\<rparr>) = table_ok s"
  by (simp add: table_ok_def seated_def)

lemma table_ok_phase: "table_ok (s\<lparr>phase := ph\<rparr>) = table_ok s"
  by (simp add: table_ok_def seated_def)

lemma table_ok_going_alone: "table_ok (s\<lparr>going_alone := g\<rparr>) = table_ok s"
  by (simp add: table_ok_def seated_def)

lemma started_frame:
  "started s \<Longrightarrow> table_ok s' \<Longrightarrow> phase s' = phase s \<Longrightarrow> trump_suit s' = trump_suit s \<Longrightarrow>
   length (completed_tricks s') = length (completed_tricks s) \<Longrightarrow>
   team_scores s' = team_scores s \<Longrightarrow> started s'"
  by (simp add: started_def)

lemma started_play_card:
  assumes st: "started s" and sh: "is_shuffle sh" and r: "play_card sh pid c s = Inr (b, s')"
  shows "started s'"
proof -
  have tok: "table_ok s" using st by (simp add: started_def)
  from tok sh show ?thesis
  proof (cases rule: play_card_cases[where pid = pid and c = c])
    case rejected
    then show ?thesis using r st by simp
  next
    case (laid p)
    have okL: "table_ok (lay_card s pid p c)" using tok laid(1) by (rule table_ok_lay_card)
    have s': "s' = (lay_card s pid p c)
        \<lparr>current_player_index := (current_player_index s + 1) mod 4\<rparr>"
      using r laid(4) by simp
    have t: "table_ok s'" unfolding s' using okL by (simp only: table_ok_current_player_index)
    have f: "phase s' = phase s" "trump_suit s' = trump_suit s"
      "length (completed_tricks s') = length (completed_tricks s)"
      "team_scores s' = team_scores s"
      unfolding s' by (simp_all add: lay_card_def)
    show ?thesis using st t f by (rule started_frame)
  next
    case (stuck p)
    have okL: "table_ok (lay_card s pid p c)" using tok stuck(1) by (rule table_ok_lay_card)
    have s': "s' = lay_card s pid p c" using r stuck(5) by simp
    have t: "table_ok s'" unfolding s' using okL .
    have f: "phase s' = phase s" "trump_suit s' = trump_suit s"
      "length (completed_tricks s') = length (completed_tricks s)"
      "team_scores s' = team_scores s"
      unfolding s' by (simp_all add: lay_card_def)
    show ?thesis using st t f by (rule started_frame)
  next
    case (trick p t)
    have okL: "table_ok (lay_card s pid p c)" using tok trick(1) by (rule table_ok_lay_card)
    have ne: "cards (current_trick (lay_card s pid p c)) \<noteq> []" by (simp add: lay_card_def)
    have okA: "table_ok (archived (lay_card s pid p c) t)"
      using okL ne by (rule table_ok_archived)
    have s': "s' = archived (lay_card s pid p c) t" using r trick(6) by simp
    have ph: "phase s \<noteq> TRUMP_SELECTION" using st trick(4) by (auto simp: started_def)
    have fields: "phase s' = phase s" "trump_suit s' = trump_suit s"
      "team_scores s' = team_scores s"
      "length (completed_tricks s') = Suc (length (completed_tricks s))"
      unfolding s' by (simp_all add: archived_def lay_card_def)
    have t: "table_ok s'" unfolding s' using okA .
    have g: "phase s \<in> {PLAYING, GAME_COMPLETE}" using st ph by (simp add: started_def)
    have h: "phase s = GAME_COMPLETE \<longrightarrow>
        5 \<le> length (completed_tricks s) \<and> 10 \<le> max (team_scores s 0) (team_scores s 1)"
      "phase s \<noteq> GAME_COMPLETE \<longrightarrow>
        length (completed_tricks s) < 5 \<and> max (team_scores s 0) (team_scores s 1) < 10"
      using st by (simp_all add: started_def)
    show ?thesis
      unfolding started_def fields using t g h ph trick(5) by auto
  next
    case (game_over p t tm)
    have okL: "table_ok (lay_card s pid p c)" using tok game_over(1) by (rule table_ok_lay_card)
    have ne: "cards (current_trick (lay_card s pid p c)) \<noteq> []" by (simp add: lay_card_def)
    have okA: "table_ok (archived (lay_card s pid p c) t)"
      using okL ne by (rule table_ok_archived)
    let ?S = "scored (archived (lay_card s pid p c) t) tm"
    have okS: "table_ok ?S" using okA by (simp add: table_ok_scored)
    have s': "s' = ?S\<lparr>phase := GAME_COMPLETE\<rparr>" using r game_over(9) by simp
    have okS': "table_ok s'" using okS unfolding s' by (simp only: table_ok_phase)
    have len: "length (completed_tricks s') = 5"
      unfolding s' using game_over(5) by (simp add: scored_def archived_def lay_card_def)
    have f: "phase s' = GAME_COMPLETE" "team_scores s' = team_scores ?S"
      unfolding s' by simp_all
    show ?thesis
      unfolding started_def f using okS' len game_over(8) by simp
  next
    case (next_round p t tm ps)
    have okL: "table_ok (lay_card s pid p c)" using tok next_round(1) by (rule table_ok_lay_card)
    have ne: "cards (current_trick (lay_card s pid p c)) \<noteq> []" by (simp add: lay_card_def)
    have okA: "table_ok (archived (lay_card s pid p c) t)"
      using okL ne by (rule table_ok_archived)
    let ?S = "scored (archived (lay_card s pid p c) t) tm"
    have okS: "table_ok ?S" using okA by (simp add: table_ok_scored)
    have s': "s' = dealt_with sh ps (cleared ?S)" using r next_round(10) by simp
    have sC: "seated (cleared ?S)" using okS by (simp add: table_ok_def seated_def cleared_def)
    have "table_ok (dealt_with sh ps (cleared ?S))"
      using sh sC next_round(9)
    proof (rule table_ok_dealt_with)
      show "dealer_index (cleared ?S) < 4" by (simp add: cleared_def)
      show "trump_suit (cleared ?S) = None" by (simp add: cleared_def)
      show "fst ` set (cards (current_trick (cleared ?S))) \<subseteq> set (player_order (cleared ?S))"
        by (simp add: cleared_def scored_def archived_def new_trick_def)
      show "winner ` set (completed_tricks (cleared ?S)) \<subseteq> set (player_order (cleared ?S))"
        by (simp add: cleared_def)
    qed
    then have t: "table_ok s'" unfolding s' .
    have f: "phase s' = TRUMP_SELECTION" "trump_suit s' = None" "completed_tricks s' = []"
      "team_scores s' = team_scores ?S"
      unfolding s' by (simp_all add: dealt_with_def cleared_def)
    show ?thesis
      unfolding started_def f using t next_round(8) by auto
  qed
qed

lemma table_okD:
  assumes "table_ok s"
  shows "seated s" and "dealer_index s < 4" and "trump_selection_player_index s < 4"
    and "length (player_order s) = 4"
    and "fst ` set (cards (current_trick s)) \<subseteq> set (player_order s)"
    and "winner ` set (completed_tricks s) \<subseteq> set (player_order s)"
proof -
  show "seated s" and "dealer_index s < 4" and "trump_selection_player_index s < 4"
    and "fst ` set (cards (current_trick s)) \<subseteq> set (player_order s)"
    and "winner ` set (completed_tricks s) \<subseteq> set (player_order s)"
    using assms by (simp_all add: table_ok_def)
  then show "length (player_order s) = 4" by (simp add: seated_def)
qed

lemma seated_players_update:
  assumes "seated s" and "map_of (players s) k = Some p"
  shows "seated (s\<lparr>players := AList.update k p' (players s)\<rparr>)"
proof -
  have k: "map fst (AList.update k p' (players s)) = map fst (players s)"
    using assms(2) by (rule keys_update_present)
  have ks: "fst ` set (AList.update k p' (players s)) = fst ` set (players s)"
    using arg_cong[OF k, of set] by (simp only: set_map)
  show ?thesis using assms(1) unfolding seated_def by (simp add: k ks)
qed

lemma seated_cong:
  "seated s \<Longrightarrow> players s' = players s \<Longrightarrow> player_order s' = player_order s \<Longrightarrow> seated s'"
  by (simp add: seated_def)

lemma table_ok_cong:
  assumes "table_ok s" and "seated s'" and "player_order s' = player_order s"
    and "dealer_index s' = dealer_index s" and "trump_selection_player_index s' < 4"
    and "deck s' = deck s" and "trump_card s' = trump_card s"
    and "trump_suit s' \<noteq> None \<longrightarrow> (\<exists>tm \<in> set (player_order s). trump_maker s' = Some tm)"
    and "current_trick s' = current_trick s" and "completed_tricks s' = completed_tricks s"
  shows "table_ok s'"
  using assms by (simp add: table_ok_def)

lemma started_bid:
  assumes st: "started s" and sh: "is_shuffle sh"
    and r: "handle_trump_selection sh pid act u s = Inr (b, s')"
  shows "started s'"
proof (cases "phase s = TRUMP_SELECTION \<and> pid = player_order s ! trump_selection_player_index s")
  case False
  have tok: "table_ok s" using st by (simp add: started_def)
  from bid_not_current[OF tok False] r show ?thesis using st by simp
next
  case True
  have tok: "table_ok s" using st by (simp add: started_def)
  have ph: "phase s = TRUMP_SELECTION" and pid: "pid = player_order s ! trump_selection_player_index s"
    using True by simp_all
  have ts: "trump_suit s = None" using st ph by (simp add: started_def)
  have small: "length (completed_tricks s) < 5" "max (team_scores s 0) (team_scores s 1) < 10"
    using st ph by (simp_all add: started_def)
  have pin: "pid \<in> set (player_order s)"
    unfolding pid using table_okD(3,4)[OF tok] by simp
  note u = bid_current[OF tok ph pid, of sh act u]
  have playing: "started x" if "table_ok x" "phase x = PLAYING"
    "completed_tricks x = completed_tricks s" "team_scores x = team_scores s" for x
    using that small by (simp add: started_def)
  have selecting: "started x" if "table_ok x" "phase x = TRUMP_SELECTION" "trump_suit x = None"
    "completed_tricks x = completed_tricks s" "team_scores x = team_scores s" for x
    using that small by (simp add: started_def)
  consider (a) "act = ''order_up'' \<and> trump_selection_round s = 1"
    | (b) "\<not> (act = ''order_up'' \<and> trump_selection_round s = 1)"
        "act = ''name_trump'' \<and> trump_selection_round s = 2 \<and> u \<noteq> None"
    | (c) "\<not> (act = ''order_up'' \<and> trump_selection_round s = 1)"
        "\<not> (act = ''name_trump'' \<and> trump_selection_round s = 2 \<and> u \<noteq> None)" "act = ''pass''"
    | (d) "\<not> (act = ''order_up'' \<and> trump_selection_round s = 1)"
        "\<not> (act = ''name_trump'' \<and> trump_selection_round s = 2 \<and> u \<noteq> None)" "act \<noteq> ''pass''"
    by blast
  then show ?thesis
  proof cases
    case a
    from order_up_picked_up[OF tok, of pid] obtain tc dealer where
      tc: "trump_card s = Some tc"
      and d: "map_of (players s) (player_order s ! dealer_index s) = Some dealer"
      and o: "order_up pid s =
          Inr (True, picked_up s pid (player_order s ! dealer_index s) dealer tc)"
      by blast
    have s': "s' = picked_up s pid (player_order s ! dealer_index s) dealer tc"
      using r u a o by simp
    have "seated (s\<lparr>players := AList.update (player_order s ! dealer_index s)
                (dealer\<lparr>hand := hand dealer @ [tc]\<rparr>) (players s)\<rparr>)"
      using table_okD(1)[OF tok] d by (rule seated_players_update)
    then have "seated s'"
      unfolding s' picked_up_def by (rule seated_cong) simp_all
    with tok have "table_ok s'"
      by (rule table_ok_cong) (simp_all add: s' picked_up_def pin table_okD(3)[OF tok])
    then show ?thesis
      by (rule playing) (simp_all add: s' picked_up_def)
  next
    case b
    then obtain v where v: "u = Some v" by blast
    from tok obtain tc where tc: "trump_card s = Some tc" by (simp add: table_ok_def)
    show ?thesis
    proof (cases "v = suit tc")
      case True
      then have "s' = s" using r u b v name_trump_named[OF tc, of pid v] by simp
      then show ?thesis using st by simp
    next
      case False
      then have s': "s' = named s pid v" using r u b v name_trump_named[OF tc, of pid v] by simp
      have "seated s'"
        using table_okD(1)[OF tok] unfolding s' named_def by (rule seated_cong) simp_all
      with tok have "table_ok s'"
        by (rule table_ok_cong) (simp_all add: s' named_def pin table_okD(3)[OF tok])
      then show ?thesis
        by (rule playing) (simp_all add: s' named_def)
    qed
  next
    case c
    have e: "pass_bid sh s = Inr (b, s')" using r u c by simp
    have "seated (passed s)"
      using table_okD(1)[OF tok] unfolding passed_def by (rule seated_cong) simp_all
    with tok have okP: "table_ok (passed s)"
      by (rule table_ok_cong) (simp_all add: passed_def ts table_okD(3)[OF tok])
    consider (r1) "trump_selection_round s = 1 \<and>
          (trump_selection_player_index s + 1) mod 4 = (dealer_index s + 1) mod 4"
      | (r2) "\<not> (trump_selection_round s = 1 \<and>
          (trump_selection_player_index s + 1) mod 4 = (dealer_index s + 1) mod 4)"
         "trump_selection_round s = 2 \<and>
          (trump_selection_player_index s + 1) mod 4 = (dealer_index s + 1) mod 4"
      | (r3) "\<not> (trump_selection_round s = 1 \<and>
          (trump_selection_player_index s + 1) mod 4 = (dealer_index s + 1) mod 4)"
        "\<not> (trump_selection_round s = 2 \<and>
          (trump_selection_player_index s + 1) mod 4 = (dealer_index s + 1) mod 4)"
      by blast
    then show ?thesis
    proof cases
      case r1
      then have s': "s' = (passed s)\<lparr>trump_selection_round := 2\<rparr>"
        using e unfolding pass_bid_passed by simp
      have "seated s'"
        using table_okD(1)[OF okP] unfolding s' by (rule seated_cong) simp_all
      with okP have "table_ok s'"
        by (rule table_ok_cong) (simp_all add: s' passed_def ts table_okD(3)[OF okP])
      then show ?thesis
        by (rule selecting) (simp_all add: s' passed_def ph ts)
    next
      case r2
      have sP: "seated (passed s)" using okP by (simp add: table_ok_def)
      from deal_cards_dealt[OF sh sP] obtain ps where
        ps: "deal_cards sh (passed s) = Inr (dealt_with sh ps (passed s))"
          "fresh_hands sh (passed s) ps" by blast
      have s': "s' = dealt_with sh ps (passed s)"
        using e r2 ps(1) unfolding pass_bid_passed by simp
      have "table_ok (dealt_with sh ps (passed s))"
        using sh sP ps(2)
      proof (rule table_ok_dealt_with)
        show "dealer_index (passed s) < 4" using tok by (simp add: passed_def table_ok_def)
        show "trump_suit (passed s) = None" using ts by (simp add: passed_def)
        show "fst ` set (cards (current_trick (passed s))) \<subseteq> set (player_order (passed s))"
          using tok by (simp add: passed_def table_ok_def)
        show "winner ` set (completed_tricks (passed s)) \<subseteq> set (player_order (passed s))"
          using tok by (simp add: passed_def table_ok_def)
      qed
      then have "table_ok s'" unfolding s' .
      then show ?thesis
        by (rule selecting) (simp_all add: s' dealt_with_def passed_def ts)
    next
      case r3
      then have s': "s' = passed s"
        using e unfolding pass_bid_passed by (auto split: if_splits)
      have "table_ok s'" using okP unfolding s' .
      then show ?thesis
        by (rule selecting) (simp_all add: s' passed_def ph ts)
    qed
  next
    case d
    then have "s' = s" using r u by (auto split: if_splits)
    then show ?thesis using st by simp
  qed
qed

lemma all_hands_empty_update:
  "all_hands ps = [] \<Longrightarrow> hand v = [] \<Longrightarrow> all_hands (AList.update k v ps) = []"
  by (induction ps) (auto simp: all_hands_def)

lemma all_hands_empty_lookup:
  "all_hands ps = [] \<Longrightarrow> map_of ps k = Some p \<Longrightarrow> hand p = []"
  by (induction ps) (auto simp: all_hands_def split: if_splits)

lemma length_alist_update:
  "length (AList.update k v al) = (if k \<in> fst ` set al then length al else Suc (length al))"
proof -
  have "length (AList.update k v al) = length (map fst (AList.update k v al))" by simp
  also have "\<dots> = (if k \<in> fst ` set al then length al else Suc (length al))"
    unfolding AList.update_keys by simp
  finally show ?thesis .
qed

lemma started_going_alone:
  assumes "started s" and "handle_going_alone pid ga s = (b, s')"
  shows "started s'"
proof (cases "Some pid = trump_maker s")
  case False
  then show ?thesis using assms by (simp add: handle_going_alone_def)
next
  case True
  then have s': "s' = s\<lparr>going_alone := (if ga then Some pid else None)\<rparr>"
    using assms(2) by (simp add: handle_going_alone_def)
  have tok: "table_ok s" using assms(1) by (simp add: started_def)
  have "table_ok s'" unfolding s' using tok by (simp only: table_ok_going_alone)
  with assms(1) show ?thesis
    by (rule started_frame) (simp_all add: s')
qed

lemma started_add_player:
  assumes "started s" and "add_player sh pid nm ai s = Inr (b, s')"
  shows "s' = s"
proof -
  have "seated s" using assms(1) by (simp add: started_def table_ok_def)
  then have "length (players s) = 4" by (rule seated_length)
  then show ?thesis using assms(2) by (simp add: add_player_def)
qed

lemma waiting_bid:
  assumes "waiting s" and "handle_trump_selection sh pid act u s = Inr (b, s')"
  shows "s' = s"
  using assms by (simp add: waiting_def handle_trump_selection_def)

lemma waiting_going_alone:
  assumes "waiting s" and "handle_going_alone pid ga s = (b, s')"
  shows "s' = s"
  using assms by (simp add: waiting_def handle_going_alone_def)

lemma waiting_play_card:
  assumes "waiting s" and "play_card sh pid c s = Inr (b, s')"
  shows "s' = s"
proof -
  have "\<not> can_play_card s pid c"
  proof
    assume "can_play_card s pid c"
    from can_play_cardD[OF this] obtain p where
      p: "map_of (players s) pid = Some p" "c \<in> set (hand p)" by blast
    have "all_hands (players s) = []" using assms(1) by (simp add: waiting_def)
    from all_hands_empty_lookup[OF this p(1)] p(2) show False by simp
  qed
  from play_card_rejected[OF this, of sh] assms(2) show ?thesis by simp
qed

lemma add_player_unfold:
  "add_player sh pid nm ai s =
     (if length (players s) \<ge> 4 then Inr (False, s)
      else if length (players (joined s pid nm ai)) = 4
      then (case deal_cards sh ((joined s pid nm ai)\<lparr>phase := DEALING\<rparr>) of
              Inl e \<Rightarrow> Inl e | Inr s2 \<Rightarrow> Inr (True, s2))
      else Inr (True, joined s pid nm ai))"
  by (auto simp: add_player_def start_game_def joined_def Let_def split: sum.splits)

lemma waiting_add_player:
  assumes w: "waiting s" and sh: "is_shuffle sh" and r: "add_player sh pid nm ai s = Inr (b, s')"
  shows "waiting s' \<or> started s'"
proof -
  let ?J = "joined s pid nm ai"
  have lt: "length (players s) < 4" using w by (simp add: waiting_def)
  have dJ: "distinct (map fst (players ?J))"
    using w by (simp add: joined_def waiting_def AList.distinct_update)
  have kJ: "fst ` set (players ?J) = set (player_order ?J)"
    using w by (simp add: joined_def waiting_def AList.dom_update)
  have hJ: "all_hands (players ?J) = []"
    using w by (simp add: joined_def waiting_def all_hands_empty_update)
  show ?thesis
  proof (cases "length (players ?J) = 4")
    case False
    then have s': "s' = ?J" using r lt unfolding add_player_unfold by simp
    have "length (players ?J) \<le> Suc (length (players s))"
      by (simp add: joined_def length_alist_update)
    then have "length (players ?J) < 4" using False lt by simp
    then have "waiting s'"
      unfolding s' waiting_def using dJ kJ hJ w
      by (simp add: joined_def waiting_def)
    then show ?thesis ..
  next
    case True
    let ?D = "?J\<lparr>phase := DEALING\<rparr>"
    from r lt True obtain s2 where s2: "deal_cards sh ?D = Inr s2" and s': "s' = s2"
      unfolding add_player_unfold by (auto split: sum.splits)
    from deal_cards_seats[OF sh s2] have le: "length (player_order ?J) \<le> 4" by simp
    have c4: "card (set (player_order ?J)) = 4"
      using True distinct_card[OF dJ] kJ by simp
    have "card (set (player_order ?J)) \<le> length (player_order ?J)" by (rule card_length)
    then have l4: "length (player_order ?J) = 4" using le c4 by simp
    then have dO: "distinct (player_order ?J)" using c4 by (simp add: card_distinct)
    have sD: "seated ?D"
      unfolding seated_def using dJ kJ l4 dO by simp
    from deal_cards_dealt[OF sh sD] obtain ps where
      ps: "deal_cards sh ?D = Inr (dealt_with sh ps ?D)" "fresh_hands sh ?D ps" by blast
    have e: "s' = dealt_with sh ps ?D" using s2 s' ps(1) by simp
    have "table_ok (dealt_with sh ps ?D)"
      using sh sD ps(2)
    proof (rule table_ok_dealt_with)
      show "dealer_index ?D < 4" using w by (simp add: joined_def waiting_def)
      show "trump_suit ?D = None" using w by (simp add: joined_def waiting_def)
      show "fst ` set (cards (current_trick ?D)) \<subseteq> set (player_order ?D)"
        using w by (simp add: joined_def waiting_def)
      show "winner ` set (completed_tricks ?D) \<subseteq> set (player_order ?D)"
        using w by (simp add: joined_def waiting_def)
    qed
    then have t: "table_ok s'" unfolding e .
    have f: "phase s' = TRUMP_SELECTION" "trump_suit s' = None" "completed_tricks s' = []"
      "team_scores s' 0 = 0" "team_scores s' 1 = 0"
      unfolding e using w by (simp_all add: dealt_with_def joined_def waiting_def)
    have "started s'"
      unfolding started_def using t f by simp
    then show ?thesis ..
  qed
qed

lemma game_inv_new: "game_inv (new_game rc)"
  by (simp add: game_inv_def waiting_def new_game_def new_trick_def all_hands_def)

lemma game_inv_step:
  assumes "game_inv s" and "is_shuffle sh" and "apply_action sh a s = Inr (b, s')"
  shows "game_inv s'"
proof (cases a)
  case (Join pid nm ai)
  then have r: "add_player sh pid nm ai s = Inr (b, s')"
    using assms(3) by (simp add: apply_action_def)
  from assms(1) show ?thesis unfolding game_inv_def
  proof
    assume "waiting s" from waiting_add_player[OF this assms(2) r] show "waiting s' \<or> started s'" .
  next
    assume "started s" with started_add_player[OF _ r] show "waiting s' \<or> started s'" by simp
  qed
next
  case (Bid pid act u)
  then have r: "handle_trump_selection sh pid act u s = Inr (b, s')"
    using assms(3) by (simp add: apply_action_def)
  from assms(1) show ?thesis unfolding game_inv_def
  proof
    assume "waiting s" with waiting_bid[OF _ r] show "waiting s' \<or> started s'" by simp
  next
    assume "started s" from started_bid[OF this assms(2) r] show "waiting s' \<or> started s'" ..
  qed
next
  case (GoAlone pid ga)
  then have r: "handle_going_alone pid ga s = (b, s')"
    using assms(3) by (simp add: apply_action_def)
  from assms(1) show ?thesis unfolding game_inv_def
  proof
    assume "waiting s" with waiting_going_alone[OF _ r] show "waiting s' \<or> started s'" by simp
  next
    assume "started s" from started_going_alone[OF this r] show "waiting s' \<or> started s'" ..
  qed
next
  case (Play pid c)
  then have r: "play_card sh pid c s = Inr (b, s')"
    using assms(3) by (simp add: apply_action_def)
  from assms(1) show ?thesis unfolding game_inv_def
  proof
    assume "waiting s" with waiting_play_card[OF _ r] show "waiting s' \<or> started s'" by simp
  next
    assume "started s" from started_play_card[OF this assms(2) r] show "waiting s' \<or> started s'" ..
  qed
qed

lemma reachable_game_inv: "reachable s \<Longrightarrow> game_inv s"
  by (induction rule: reachable.induct) (auto intro: game_inv_new game_inv_step)

lemma run_reachable:
  "is_shuffle sh \<Longrightarrow> reachable s \<Longrightarrow> run sh as s = Inr s' \<Longrightarrow> reachable s'"
proof (induction as arbitrary: s)
  case Nil
  then show ?case by simp
next
  case (Cons a as)
  from Cons(4) obtain b s1 where a: "apply_action sh a s = Inr (b, s1)" and r: "run sh as s1 = Inr s'"
    by (auto split: sum.splits)
  have "reachable s1" using Cons(3,2) a by (rule reachable_step)
  from Cons(1)[OF Cons(2) this r] show ?case .
qed

section \<open>Card values: engine and AI\<close>

lemma ai_value_agrees_on_trump_and_lead:
  "ai_is_trump c t \<or> suit c = l \<Longrightarrow> ai_get_card_value c t = get_card_value c t l"
  by (cases c; cases t; cases "suit c")
     (auto simp: ai_get_card_value_def get_card_value_def is_same_color_jack_def
        same_color_def ai_is_trump_def)

text \<open>
  Claim C1. The AI's valuation is documented as matching the engine's, but it has no
  leading suit: a card that is neither trump nor of the suit led keeps its rank in the
  AI and is worth 0 in the engine. With hearts as trump and spades led, the nine of
  clubs is worth 9 to the AI and 0 to the engine.
\<close>

theorem ai_card_value_diverges:
  "ai_get_card_value (Card CLUBS NINE) HEARTS = 9 \<and>
   get_card_value (Card CLUBS NINE) HEARTS SPADES = 0"
  by (simp add: ai_get_card_value_def get_card_value_def is_same_color_jack_def same_color_def)

section \<open>Legal play\<close>

text \<open>
  Claim C4. \<open>can_play_card\<close> rejects a player who is not seated and a card that is not
  in the hand; with an empty current trick the legal cards are exactly the hand;
  otherwise, with the effective suit of the first card of the trick as the suit led,
  the legal cards are exactly the held cards of that effective suit when there is one,
  and the whole hand when there is none. The effective suit of the jack of the colour of
  trump is the trump suit.
\<close>

theorem can_play_card_legal:
  "(map_of (players s) pid = None \<longrightarrow> \<not> can_play_card s pid c) \<and>
   (\<forall>p. map_of (players s) pid = Some p \<longrightarrow>
      (c \<notin> set (hand p) \<longrightarrow> \<not> can_play_card s pid c) \<and>
      (cards (current_trick s) = [] \<longrightarrow> {x. can_play_card s pid x} = set (hand p)) \<and>
      (\<forall>q lc rest. cards (current_trick s) = (q, lc) # rest \<longrightarrow>
         (let lead = get_effective_suit s lc;
              follow = {x \<in> set (hand p). get_effective_suit s x = lead}
          in {x. can_play_card s pid x} = (if follow \<noteq> {} then follow else set (hand p))))) \<and>
   (\<forall>t u. trump_suit s = Some t \<longrightarrow> same_color t u \<longrightarrow>
      get_effective_suit s (Card u JACK) = t)"
proof (intro conjI allI impI)
  assume "map_of (players s) pid = None"
  then show "\<not> can_play_card s pid c"
    by (simp add: can_play_card_def)
next
  fix p assume "map_of (players s) pid = Some p" "c \<notin> set (hand p)"
  then show "\<not> can_play_card s pid c"
    by (simp add: can_play_card_def)
next
  fix p assume "map_of (players s) pid = Some p" "cards (current_trick s) = []"
  then show "{x. can_play_card s pid x} = set (hand p)"
    by (auto simp: can_play_card_def)
next
  fix p q lc rest
  assume "map_of (players s) pid = Some p" "cards (current_trick s) = (q, lc) # rest"
  then show "let lead = get_effective_suit s lc;
                 follow = {x \<in> set (hand p). get_effective_suit s x = lead}
             in {x. can_play_card s pid x} = (if follow \<noteq> {} then follow else set (hand p))"
    by (auto simp: can_play_card_def Let_def list_ex_iff)
next
  fix t u assume "trump_suit s = Some t" "same_color t u"
  then show "get_effective_suit s (Card u JACK) = t"
    by (simp add: get_effective_suit_def)
qed

theorem can_play_card_legal_witness:
  "map_of (players following_game) ''a'' = Some (seat ''a'' 0 follower_hand) \<and>
   map_of (players following_game) ''z'' = None \<and>
   \<not> can_play_card following_game ''z'' (Card SPADES NINE) \<and>
   Card SPADES NINE \<notin> set (hand (seat ''a'' 0 follower_hand)) \<and>
   \<not> can_play_card following_game ''a'' (Card SPADES NINE) \<and>
   cards (current_trick following_game) = (''b'', Card HEARTS KING) # [] \<and>
   {x. can_play_card following_game ''a'' x} = {Card DIAMONDS JACK, Card HEARTS ACE} \<and>
   trump_suit following_game = Some HEARTS \<and> same_color HEARTS DIAMONDS \<and>
   get_effective_suit following_game (Card DIAMONDS JACK) = HEARTS \<and>
   cards (current_trick leading_game) = [] \<and>
   {x. can_play_card leading_game ''a'' x} =
     {Card CLUBS NINE, Card DIAMONDS JACK, Card HEARTS ACE}"
proof -
  have a: "map_of (players following_game) ''a'' = Some (seat ''a'' 0 follower_hand)"
    and z: "map_of (players following_game) ''z'' = None"
    and tr: "cards (current_trick following_game) = (''b'', Card HEARTS KING) # []"
    and tp: "trump_suit following_game = Some HEARTS"
    by (simp_all add: following_game_def new_game_def)
  have la: "map_of (players leading_game) ''a'' = Some (seat ''a'' 0 follower_hand)"
    and ltr: "cards (current_trick leading_game) = []"
    by (simp_all add: leading_game_def new_game_def new_trick_def)
  have sc: "same_color HEARTS DIAMONDS"
    by (simp add: same_color_def)
  have h: "hand (seat ''a'' 0 follower_hand) = follower_hand"
    by (simp add: seat_def)
  have eff: "get_effective_suit following_game (Card CLUBS NINE) = CLUBS"
    "get_effective_suit following_game (Card DIAMONDS JACK) = HEARTS"
    "get_effective_suit following_game (Card HEARTS ACE) = HEARTS"
    "get_effective_suit following_game (Card HEARTS KING) = HEARTS"
    by (simp_all add: get_effective_suit_def tp same_color_def)
  have fol: "{x \<in> set follower_hand. get_effective_suit following_game x = HEARTS} =
      {Card DIAMONDS JACK, Card HEARTS ACE}"
    using eff by (auto simp: follower_hand_def)
  note f = can_play_card_legal [of following_game "''a''" "Card SPADES NINE"]
  note g = can_play_card_legal [of following_game "''z''" "Card SPADES NINE"]
  note l = can_play_card_legal [of leading_game "''a''" "Card SPADES NINE"]
  have 1: "\<not> can_play_card following_game ''z'' (Card SPADES NINE)"
    using g z by blast
  have 2: "Card SPADES NINE \<notin> set (hand (seat ''a'' 0 follower_hand))"
    by (simp add: seat_def follower_hand_def)
  have 3: "\<not> can_play_card following_game ''a'' (Card SPADES NINE)"
    using f a 2 by blast
  have "let lead = get_effective_suit following_game (Card HEARTS KING);
            follow = {x \<in> set (hand (seat ''a'' 0 follower_hand)).
                        get_effective_suit following_game x = lead}
        in {x. can_play_card following_game ''a'' x} =
             (if follow \<noteq> {} then follow else set (hand (seat ''a'' 0 follower_hand)))"
    using f a tr by blast
  then have 4: "{x. can_play_card following_game ''a'' x} =
      {Card DIAMONDS JACK, Card HEARTS ACE}"
    unfolding Let_def eff h fol by simp
  have 5: "get_effective_suit following_game (Card DIAMONDS JACK) = HEARTS"
    using f tp sc by blast
  have "{x. can_play_card leading_game ''a'' x} = set (hand (seat ''a'' 0 follower_hand))"
    using l la ltr by blast
  then have 6: "{x. can_play_card leading_game ''a'' x} =
      {Card CLUBS NINE, Card DIAMONDS JACK, Card HEARTS ACE}"
    by (simp add: seat_def follower_hand_def)
  show ?thesis
    using a z tr tp sc ltr 1 2 3 4 5 6 by blast
qed

section \<open>Going alone (AI)\<close>

lemma predefined_personalities_risk:
  "\<forall>p \<in> set AI_PERSONALITIES. \<not> risk_tolerance p < 0.3"
  by (simp add: AI_PERSONALITIES_def)

text \<open>
  Claim C8, as stated, fails: \<open>should_go_alone\<close> first returns False for a personality
  whose \<open>risk_tolerance\<close> is below 0.3, whatever the hand. A personality with
  \<open>risk_tolerance\<close> 0.2 declines with both bowers and three trump cards in hand.
\<close>

theorem should_go_alone_timid_counterexample:
  "Card HEARTS JACK \<in> set bower_hand \<and> Card DIAMONDS JACK \<in> set bower_hand \<and>
   3 \<le> length (filter (\<lambda>c. ai_is_trump c HEARTS) bower_hand) \<and>
   \<not> should_go_alone timid 0 bower_hand HEARTS"
  by (simp add: bower_hand_def ai_is_trump_def is_same_color_jack_def should_go_alone_def
      timid_def)

text \<open>
  Claim C8, amended: for every personality whose \<open>risk_tolerance\<close> is not below 0.3
  (each of the four predefined personalities is one) and every hand that holds the jack
  of the trump suit, the jack of the other suit of the same colour and at least three
  trump cards in total, \<open>should_go_alone\<close> returns True, whatever the random draw;
  and for every personality whose \<open>risk_tolerance\<close> is below 0.3 it returns False,
  whatever the hand and the random draw.
\<close>

theorem should_go_alone_both_bowers:
  "(\<not> risk_tolerance p < 0.3 \<and> Card t JACK \<in> set h \<and> Card u JACK \<in> set h \<and> u \<noteq> t \<and>
    same_color t u \<and> 3 \<le> length (filter (\<lambda>c. ai_is_trump c t) h)
      \<longrightarrow> should_go_alone p rnd h t) \<and>
   (risk_tolerance p < 0.3 \<longrightarrow> \<not> should_go_alone p rnd h t)"
proof (intro conjI impI)
  assume a: "\<not> risk_tolerance p < 0.3 \<and> Card t JACK \<in> set h \<and> Card u JACK \<in> set h \<and>
    u \<noteq> t \<and> same_color t u \<and> 3 \<le> length (filter (\<lambda>c. ai_is_trump c t) h)"
  have r: "list_ex (\<lambda>c. rank c = JACK \<and> suit c = t) h"
    using a by (force simp: list_ex_iff)
  have "is_same_color_jack (Card u JACK) t"
    using a by (auto simp: is_same_color_jack_def same_color_def)
  then have l: "list_ex (\<lambda>c. rank c = JACK \<and> is_same_color_jack c t) h"
    using a by (force simp: list_ex_iff)
  show "should_go_alone p rnd h t"
    using a r l by (simp add: should_go_alone_def Let_def)
next
  assume "risk_tolerance p < 0.3"
  then show "\<not> should_go_alone p rnd h t"
    by (simp add: should_go_alone_def)
qed

theorem should_go_alone_both_bowers_witness:
  "hd AI_PERSONALITIES \<in> set AI_PERSONALITIES \<and>
   \<not> risk_tolerance (hd AI_PERSONALITIES) < 0.3 \<and>
   Card HEARTS JACK \<in> set bower_hand \<and> Card DIAMONDS JACK \<in> set bower_hand \<and>
   DIAMONDS \<noteq> HEARTS \<and> same_color HEARTS DIAMONDS \<and>
   3 \<le> length (filter (\<lambda>c. ai_is_trump c HEARTS) bower_hand) \<and>
   should_go_alone (hd AI_PERSONALITIES) 0.99 bower_hand HEARTS \<and>
   risk_tolerance timid < 0.3 \<and>
   \<not> should_go_alone timid 0 [Card HEARTS JACK, Card HEARTS ACE, Card HEARTS KING,
       Card HEARTS QUEEN, Card HEARTS TEN] HEARTS"
proof -
  have 1: "\<not> risk_tolerance (hd AI_PERSONALITIES) < 0.3"
    by (simp add: AI_PERSONALITIES_def)
  have 2: "Card HEARTS JACK \<in> set bower_hand" and 3: "Card DIAMONDS JACK \<in> set bower_hand"
    by (simp_all add: bower_hand_def)
  have 4: "DIAMONDS \<noteq> HEARTS" by simp
  have 5: "same_color HEARTS DIAMONDS" by (simp add: same_color_def)
  have 6: "3 \<le> length (filter (\<lambda>c. ai_is_trump c HEARTS) bower_hand)"
    by (simp add: bower_hand_def ai_is_trump_def is_same_color_jack_def)
  have 0: "hd AI_PERSONALITIES \<in> set AI_PERSONALITIES"
    by (simp add: AI_PERSONALITIES_def)
  have 7: "risk_tolerance timid < 0.3" by (simp add: timid_def)
  note a = should_go_alone_both_bowers
    [of "hd AI_PERSONALITIES" HEARTS bower_hand DIAMONDS "0.99"]
  note b = should_go_alone_both_bowers
    [of timid HEARTS "[Card HEARTS JACK, Card HEARTS ACE, Card HEARTS KING,
       Card HEARTS QUEEN, Card HEARTS TEN]" DIAMONDS 0]
  have 8: "should_go_alone (hd AI_PERSONALITIES) 0.99 bower_hand HEARTS"
    using a 1 2 3 4 5 6 by blast
  have 9: "\<not> should_go_alone timid 0 [Card HEARTS JACK, Card HEARTS ACE, Card HEARTS KING,
       Card HEARTS QUEEN, Card HEARTS TEN] HEARTS"
    using b 7 by blast
  show ?thesis
    by (intro conjI 0 1 2 3 4 5 6 7 8 9)
qed

section \<open>Sample games\<close>

lemma is_shuffle_keep: "is_shuffle keep"
  by (simp add: is_shuffle_def keep_def)

lemma reachable_after: "reachable (after as)"
proof (cases "run keep as (new_game ''R'')")
  case (Inl e)
  then show ?thesis by (simp add: after_def reachable_new)
next
  case (Inr s)
  from run_reachable[OF is_shuffle_keep reachable_new Inr] Inr show ?thesis
    by (simp add: after_def)
qed

lemma started_after: "phase (after as) \<noteq> WAITING_FOR_PLAYERS \<Longrightarrow> started (after as)"
  using reachable_game_inv[OF reachable_after, of as]
  by (auto simp: game_inv_def waiting_def)

lemma table_ok_after: "phase (after as) \<noteq> WAITING_FOR_PLAYERS \<Longrightarrow> table_ok (after as)"
  using started_after[of as] by (simp add: started_def)

section \<open>Trump selection\<close>

text \<open>
  Claim C2 asks that after a successful order-up the dealer hold 6 cards and the phase stay
  out of Playing until a discard has brought the hand back to 5. The engine has no
  discard operation and no discard phase: \<open>handle_trump_selection\<close> calls
  \<open>start_playing_phase\<close> in the same step. With four players seated, the deck dealt
  in order and the jack of spades turned, the order-up of player b leaves the phase
  Playing and the dealer a with 6 cards.
\<close>

theorem order_up_enters_playing:
  "phase (after joins) = TRUMP_SELECTION \<and> dealer_index (after joins) = 0 \<and>
   trump_card (after joins) = Some (Card SPADES JACK) \<and>
   hand_sizes (after joins) = [5, 5, 5, 5] \<and>
   phase (after order_up_by_b) = PLAYING \<and>
   trump_suit (after order_up_by_b) = Some SPADES \<and>
   trump_maker (after order_up_by_b) = Some ''b'' \<and>
   hand_sizes (after order_up_by_b) = [6, 5, 5, 5]"
  by code_simp

section \<open>Going alone\<close>

text \<open>
  Claim C9, as stated, fails: \<open>handle_going_alone\<close> has no test of the moment of the
  call. After player b has ordered up and led the ten of hearts, so that play has
  started, b's call is accepted and sets \<open>going_alone\<close>.
\<close>

theorem going_alone_after_lead_counterexample:
  "phase (after b_has_led) = PLAYING \<and>
   map snd (cards (current_trick (after b_has_led))) = [Card HEARTS TEN] \<and>
   trump_maker (after b_has_led) = Some ''b'' \<and>
   going_alone (after b_has_led) = None \<and>
   fst (handle_going_alone ''b'' True (after b_has_led)) \<and>
   going_alone (snd (handle_going_alone ''b'' True (after b_has_led))) = Some ''b''"
  by code_simp

text \<open>
  Claim C9, amended: \<open>handle_going_alone\<close> succeeds exactly when the caller is the
  current trump maker, at any moment of the game, and then sets \<open>going_alone\<close> to
  the caller (or to none, when the flag is false); every call by another player returns
  False and leaves the game unchanged.
\<close>

theorem going_alone_trump_maker_only:
  "handle_going_alone pid ga s =
     (if trump_maker s = Some pid
      then (True, s\<lparr>going_alone := (if ga then Some pid else None)\<rparr>)
      else (False, s))"
  by (auto simp: handle_going_alone_def)

theorem going_alone_trump_maker_only_witness:
  "trump_maker (after b_has_led) = Some ''b'' \<and>
   handle_going_alone ''b'' True (after b_has_led) =
     (True, (after b_has_led)\<lparr>going_alone := Some ''b''\<rparr>) \<and>
   trump_maker (after b_has_led) \<noteq> Some ''a'' \<and>
   handle_going_alone ''a'' True (after b_has_led) = (False, after b_has_led)"
proof -
  have m: "trump_maker (after b_has_led) = Some ''b''" by code_simp
  show ?thesis
    using going_alone_trump_maker_only[of "''b''" True "after b_has_led"]
      going_alone_trump_maker_only[of "''a''" True "after b_has_led"] m
    by simp
qed

text \<open>
  Claim C10. When the dealer, the last bidder of round 2, passes, the game is dealt
  again: the pass succeeds, \<open>dealer_index\<close>, \<open>team_scores\<close> and the seating are
  unchanged, the deck is the shuffle of a fresh deck and holds the 24 distinct cards, every
  hand holds 5 cards of its first 20, the card turned is the next one,
  \<open>trump_selection_round\<close> is 1 again and the bidder is the seat after the dealer.
\<close>

theorem all_pass_redeal:
  assumes tok: "table_ok s" and sh: "is_shuffle sh"
    and ph: "phase s = TRUMP_SELECTION" and r2: "trump_selection_round s = 2"
    and last: "trump_selection_player_index s = dealer_index s"
  shows "\<exists>s'. handle_trump_selection sh (player_order s ! dealer_index s) ''pass'' u s =
            Inr (True, s') \<and>
          dealer_index s' = dealer_index s \<and> team_scores s' = team_scores s \<and>
          player_order s' = player_order s \<and>
          deck s' = sh create_deck \<and> mset (deck s') = mset create_deck \<and>
          length (deck s') = 24 \<and> distinct (deck s') \<and>
          (\<forall>(k, p) \<in> set (players s'). length (hand p) = 5) \<and>
          mset (all_hands (players s')) = mset (take 20 (deck s')) \<and>
          trump_card s' = Some (deck s' ! 20) \<and>
          phase s' = TRUMP_SELECTION \<and> trump_selection_round s' = 1 \<and>
          trump_selection_player_index s' = (dealer_index s + 1) mod 4"
proof -
  have pid: "player_order s ! dealer_index s = player_order s ! trump_selection_player_index s"
    using last by simp
  have e: "handle_trump_selection sh (player_order s ! dealer_index s) ''pass'' u s =
      pass_bid sh s"
    unfolding bid_current[OF tok ph pid] by simp
  have "seated (passed s)"
    using table_okD(1)[OF tok] unfolding passed_def by (rule seated_cong) simp_all
  from deal_cards_dealt[OF sh this] obtain ps where
    ps: "deal_cards sh (passed s) = Inr (dealt_with sh ps (passed s))"
      "fresh_hands sh (passed s) ps" by blast
  have p: "pass_bid sh s = Inr (True, dealt_with sh ps (passed s))"
    unfolding pass_bid_passed using r2 last ps(1) by simp
  have m: "mset (sh create_deck) = mset create_deck"
    using sh by (simp add: is_shuffle_def)
  have l: "length (sh create_deck) = 24"
    using sh by (simp add: shuffle_length create_deck_length)
  have d: "distinct (sh create_deck)"
    using m create_deck_distinct by (metis mset_eq_imp_distinct_iff)
  show ?thesis
    unfolding e p using ps(2) m l d
    by (simp add: dealt_with_def passed_def fresh_hands_def)
qed

theorem all_pass_redeal_witness:
  "table_ok (after seven_passes) \<and> is_shuffle keep \<and>
   phase (after seven_passes) = TRUMP_SELECTION \<and>
   trump_selection_round (after seven_passes) = 2 \<and>
   trump_selection_player_index (after seven_passes) = dealer_index (after seven_passes) \<and>
   player_order (after seven_passes) ! dealer_index (after seven_passes) = ''a'' \<and>
   (\<exists>s'. handle_trump_selection keep ''a'' ''pass'' None (after seven_passes) = Inr (True, s') \<and>
         dealer_index s' = dealer_index (after seven_passes) \<and>
         team_scores s' = team_scores (after seven_passes) \<and>
         mset (deck s') = mset create_deck \<and> length (deck s') = 24 \<and>
         trump_selection_round s' = 1 \<and> trump_selection_player_index s' = 1)"
proof -
  have f: "phase (after seven_passes) = TRUMP_SELECTION"
    "trump_selection_round (after seven_passes) = 2"
    "trump_selection_player_index (after seven_passes) = dealer_index (after seven_passes)"
    "player_order (after seven_passes) ! dealer_index (after seven_passes) = ''a''"
    "dealer_index (after seven_passes) = 0"
    by code_simp+
  have t: "table_ok (after seven_passes)"
    by (rule table_ok_after) (simp add: f(1))
  from all_pass_redeal[OF t is_shuffle_keep f(1,2,3), of None]
  show ?thesis
    unfolding f(4) using t is_shuffle_keep f by auto
qed

section \<open>Round scoring\<close>



section \<open>Trick resolution\<close>


lemma get_effective_suit_cong:
  "trump_suit s' = trump_suit s \<Longrightarrow> get_effective_suit s' c = get_effective_suit s c"
  by (simp add: get_effective_suit_def)




section \<open>Scores and the end of the game\<close>















section \<open>Conservation of the cards\<close>


















end
